theory Spec2Isabelle
  imports Main "HOL-Library.Sublist"
begin

section \<open>Strings and arrays of the host language\<close>

text \<open>
  JavaScript strings are modelled as \<open>string\<close> (lists of characters) and arrays as lists.
  \<open>split\<close> is \<open>String.prototype.split\<close> with a one-character separator: it always returns
  at least one piece. \<open>join\<close> is \<open>Array.prototype.join\<close> with a one-character separator.
\<close>

fun split :: "char \<Rightarrow> string \<Rightarrow> string list" where
  "split sep [] = [[]]"
| "split sep (c # cs) =
     (if c = sep then [] # split sep cs
      else (case split sep cs of [] \<Rightarrow> [[c]] | x # xs \<Rightarrow> (c # x) # xs))"

fun join :: "char \<Rightarrow> string list \<Rightarrow> string" where
  "join sep [] = []"
| "join sep [x] = x"
| "join sep (x # y # ys) = x @ sep # join sep (y # ys)"

text \<open>\<open>getLastItem\<close> reads \<open>items[items.length - 1]\<close>, which is \<open>undefined\<close> on an empty
  string or array; \<open>removeLastItem\<close> is \<open>items.slice(0, items.length - 1)\<close>.\<close>

definition getLastItem :: "'a list \<Rightarrow> 'a option" where
  "getLastItem items = (if items = [] then None else Some (last items))"

definition removeLastItem :: "'a list \<Rightarrow> 'a list" where
  "removeLastItem items = take (length items - 1) items"

section \<open>Tokens\<close>

datatype TokenTypes = SINGLE | MULTI | RAW

record Token =
  type_t :: TokenTypes
  name_t :: "string option"
  piece :: string
  last_t :: string

datatype error = MultiNotAtEnd | RegExpSyntaxError | TypeError

text \<open>The characters of \<open>matchOperatorsRe\<close>: \<open>| \ { } ( ) [ ] ^ $ + * ? .\<close>\<close>

definition matchOperators :: "char list" where
  "matchOperators = CHR 0x5C # ''|{}()[]^$+*?.''"

definition escapeStringRegexp :: "string \<Rightarrow> string" where
  "escapeStringRegexp str =
     concat (map (\<lambda>c. if c \<in> set matchOperators then [CHR 0x5C, c] else [c]) str)"

definition processSingle :: "string \<Rightarrow> Token" where
  "processSingle token =
     \<lparr> type_t = SINGLE, name_t = Some (drop 1 token),
       piece = ''([^/#+]+/)'', last_t = ''([^/#+]+/?)'' \<rparr>"

definition processMulti :: "string \<Rightarrow> bool \<Rightarrow> error + Token" where
  "processMulti token lst =
     (if \<not> lst then Inl MultiNotAtEnd
      else Inr \<lparr> type_t = MULTI, name_t = Some (drop 1 token),
                 piece = ''((?:[^/#+]+/)*)'', last_t = ''((?:[^/#+]+/?)*)'' \<rparr>)"

definition processRaw :: "string \<Rightarrow> Token" where
  "processRaw token =
     (let token' = escapeStringRegexp token
      in \<lparr> type_t = RAW, name_t = None, piece = token' @ ''/'', last_t = token' @ ''/?'' \<rparr>)"

text \<open>\<open>token[0]\<close> is \<open>undefined\<close> for the empty string, which is then a raw token.\<close>

definition first_is :: "char \<Rightarrow> string \<Rightarrow> bool" where
  "first_is c token = (case token of [] \<Rightarrow> False | d # _ \<Rightarrow> d = c)"

definition processToken :: "string \<Rightarrow> nat \<Rightarrow> string list \<Rightarrow> error + Token" where
  "processToken token index tokens =
     (let lst = (Suc index = length tokens)
      in if first_is CHR ''+'' token then Inr (processSingle token)
         else if first_is CHR ''#'' token then processMulti token lst
         else Inr (processRaw token))"

text \<open>\<open>Array.prototype.map\<close> with the index; the first exception aborts the whole map.\<close>

fun map_tokens :: "nat \<Rightarrow> string list \<Rightarrow> string list \<Rightarrow> error + Token list" where
  "map_tokens index [] tokens = Inr []"
| "map_tokens index (t # ts) tokens =
     (case processToken t index tokens of
        Inl e \<Rightarrow> Inl e
      | Inr tok \<Rightarrow>
          (case map_tokens (Suc index) ts tokens of
             Inl e \<Rightarrow> Inl e
           | Inr toks \<Rightarrow> Inr (tok # toks)))"

definition tokenize :: "string \<Rightarrow> error + Token list" where
  "tokenize pattern = (let segs = split CHR ''/'' pattern in map_tokens 0 segs segs)"

section \<open>Derived values of a token list\<close>

text \<open>\<open>buildRegularExpression\<close>: the \<open>reduce\<close> with its index, then the anchors. The index
  tests are written with \<open>Suc\<close> because \<open>tokens.length - 2\<close> is negative for a single token.\<close>

fun reduce_regex :: "Token list \<Rightarrow> nat \<Rightarrow> Token list \<Rightarrow> string \<Rightarrow> string" where
  "reduce_regex tokens index [] acc = acc"
| "reduce_regex tokens index (token # rest) acc =
     (let isLast = (Suc index = length tokens);
          beforeMulti = (Suc (Suc index) = length tokens \<and> type_t (last tokens) = MULTI)
      in reduce_regex tokens (Suc index) rest
           (acc @ (if isLast \<or> beforeMulti then last_t token else piece token)))"

definition regexSource :: "Token list \<Rightarrow> string" where
  "regexSource tokens = ''^'' @ reduce_regex tokens 0 tokens [] @ ''$''"

definition buildTopic :: "Token list \<Rightarrow> string" where
  "buildTopic tokens =
     join CHR ''/'' (map (\<lambda>token. case type_t token of
                                    RAW \<Rightarrow> take (length (piece token) - 1) (piece token)
                                  | SINGLE \<Rightarrow> ''+''
                                  | MULTI \<Rightarrow> ''#'') tokens)"

definition buildParameterCount :: "Token list \<Rightarrow> nat" where
  "buildParameterCount tokens =
     length (filter (\<lambda>token. type_t token \<noteq> RAW \<and>
                (case name_t token of None \<Rightarrow> False | Some n \<Rightarrow> length n > 0)) tokens)"

definition removeRawTokens :: "Token list \<Rightarrow> Token list" where
  "removeRawTokens tokens = filter (\<lambda>token. type_t token \<noteq> RAW) tokens"

section \<open>Parameter values\<close>

text \<open>
  A parameter value is a string or an array of strings. The object that the extraction
  function fills is a JavaScript object: it has its own properties and a prototype. The
  prototype of the literal \<open>{}\<close> is \<open>Object.prototype\<close>; it becomes an array when an array is
  assigned to \<open>__proto__\<close>. \<open>plain props\<close> is the object with the own properties \<open>props\<close> and
  the prototype \<open>Object.prototype\<close>, as an object literal builds it.
\<close>

datatype pvalue = Scalar string | Sequence "string list"

datatype prototype = ObjectPrototype | ArrayValue "string list"

record params =
  own :: "string \<rightharpoonup> pvalue"
  proto :: prototype

definition plain :: "(string \<rightharpoonup> pvalue) \<Rightarrow> params" where
  "plain props = \<lparr> own = props, proto = ObjectPrototype \<rparr>"

text \<open>
  The assignment \<open>params[key] = value\<close>. The name \<open>__proto__\<close>, unless the object has it as an
  own property, reaches the accessor that \<open>Object.prototype\<close> defines: its setter replaces
  the prototype when the value is an object (here an array) and does nothing when the value
  is a string, and no own property is created. Every other name is created or overwritten
  as an own property: the properties an object inherits from \<open>Object.prototype\<close> or from an
  array are writable data properties, which an assignment shadows.
\<close>

definition assign :: "params \<Rightarrow> string \<Rightarrow> pvalue \<Rightarrow> params" where
  "assign ps key v =
     (if key = ''__proto__'' \<and> own ps key = None then
        (case v of Scalar s \<Rightarrow> ps | Sequence vs \<Rightarrow> ps\<lparr> proto := ArrayValue vs \<rparr>)
      else ps\<lparr> own := (own ps)(key \<mapsto> v) \<rparr>)"

text \<open>
  The body of the \<open>forEach\<close> of \<open>buildParameterFunction\<close>, walking the captures and the
  non-raw tokens by the same index. A capture beyond the tokens reads \<open>name\<close> of
  \<open>undefined\<close>, and an \<open>undefined\<close> capture of a named token is split or measured: both
  are a \<open>TypeError\<close>.
\<close>

definition capture_value :: "Token \<Rightarrow> string \<Rightarrow> pvalue" where
  "capture_value token capture =
     (if type_t token = MULTI then
        (let param = split CHR ''/'' capture
         in if getLastItem param = None \<or> getLastItem param = Some []
            then Sequence (removeLastItem param) else Sequence param)
      else if getLastItem capture = Some CHR ''/'' then Scalar (removeLastItem capture)
      else Scalar capture)"

fun forEach_capture :: "Token list \<Rightarrow> string option list \<Rightarrow> params \<Rightarrow> error + params" where
  "forEach_capture captureTokens [] ps = Inr ps"
| "forEach_capture [] (capture # rest) ps = Inl TypeError"
| "forEach_capture (token # tokens) (capture # rest) ps =
     (if name_t token = None \<or> name_t token = Some [] then forEach_capture tokens rest ps
      else (case capture of
              None \<Rightarrow> Inl TypeError
            | Some c \<Rightarrow>
                forEach_capture tokens rest (assign ps (the (name_t token)) (capture_value token c))))"

definition buildParameterFunction ::
  "Token list \<Rightarrow> string option list option \<Rightarrow> error + params" where
  "buildParameterFunction tokens results =
     (let captureTokens = removeRawTokens tokens
      in case results of
           None \<Rightarrow> Inr (plain Map.empty)
         | Some res \<Rightarrow> forEach_capture captureTokens (drop 1 res) (plain Map.empty))"

section \<open>Regular expressions of the host language\<close>

text \<open>
  \<open>new RegExp(source)\<close> and \<open>RegExp.prototype.exec\<close> belong to the host language. They are
  modelled for the syntax that \<open>regexSource\<close> can produce: literal characters, identity
  escapes of syntax characters, negated character classes of plain characters, capturing and
  non-capturing groups, the greedy quantifiers \<open>*\<close>, \<open>+\<close>, \<open>?\<close> and the assertions \<open>^\<close> and
  \<open>$\<close>. The parser answers \<open>None\<close> on anything else.
\<close>

datatype regex =
    Empty
  | Lit char
  | NegClass "char list"
  | AStart
  | AEnd
  | Seq regex regex
  | Group nat regex
  | NonCap regex
  | Star regex
  | Plus regex
  | Opt regex

fun seq_of :: "regex list \<Rightarrow> regex" where
  "seq_of [] = Empty"
| "seq_of (r # rs) = Seq r (seq_of rs)"

fun quantifiable :: "regex \<Rightarrow> bool" where
  "quantifiable (Lit c) = True"
| "quantifiable (NegClass cs) = True"
| "quantifiable (Group k r) = True"
| "quantifiable (NonCap r) = True"
| "quantifiable r = False"

text \<open>The characters of a class up to the closing bracket, and the input after it.\<close>

fun class_body :: "string \<Rightarrow> (string \<times> string) option" where
  "class_body [] = None"
| "class_body (c # cs) =
     (if c = CHR '']'' then Some ([], cs)
      else if c = CHR 0x5C \<or> c = CHR ''-'' then None
      else (case class_body cs of None \<Rightarrow> None | Some (body, rest) \<Rightarrow> Some (c # body, rest)))"

lemma class_body_length: "class_body cs = Some (body, rest) \<Longrightarrow> length rest < length cs"
  by (induction cs arbitrary: body rest) (auto split: if_splits option.splits)

text \<open>
  The parser reads the source left to right. \<open>n\<close> counts the capturing groups opened so
  far (groups are numbered by their opening parenthesis, from 1), \<open>cur\<close> holds the terms of
  the group being read, newest first, and \<open>stk\<close> the enclosing groups.
\<close>

type_synonym frame = "nat option \<times> regex list"

function rparse :: "string \<Rightarrow> nat \<Rightarrow> regex list \<Rightarrow> frame list \<Rightarrow> regex option" where
  "rparse [] n cur stk = (if stk = [] then Some (seq_of (rev cur)) else None)"
| "rparse (c # cs) n cur stk =
     (if c = CHR ''('' then
        (if take 2 cs = ''?:'' then rparse (drop 2 cs) n [] ((None, cur) # stk)
         else if take 1 cs = ''?'' then None
         else rparse cs (Suc n) [] ((Some (Suc n), cur) # stk))
      else if c = CHR '')'' then
        (case stk of
           [] \<Rightarrow> None
         | (g, outer) # stk' \<Rightarrow>
             (let body = seq_of (rev cur)
              in rparse cs n ((case g of None \<Rightarrow> NonCap body | Some k \<Rightarrow> Group k body) # outer) stk'))
      else if c = CHR ''*'' \<or> c = CHR ''+'' \<or> c = CHR ''?'' then
        (case cur of
           [] \<Rightarrow> None
         | a # cur' \<Rightarrow>
             if quantifiable a
             then rparse cs n ((if c = CHR ''*'' then Star a else if c = CHR ''+'' then Plus a else Opt a) # cur') stk
             else None)
      else if c = CHR 0x5C then
        (case cs of
           [] \<Rightarrow> None
         | d # cs' \<Rightarrow> if d \<in> set matchOperators then rparse cs' n (Lit d # cur) stk else None)
      else if c = CHR ''['' then
        (case cs of
           [] \<Rightarrow> None
         | d # cs' \<Rightarrow>
             if d = CHR ''^'' then
               (case class_body cs' of
                  None \<Rightarrow> None
                | Some (body, rest) \<Rightarrow> rparse rest n (NegClass body # cur) stk)
             else None)
      else if c = CHR ''^'' then rparse cs n (AStart # cur) stk
      else if c = CHR ''$'' then rparse cs n (AEnd # cur) stk
      else if c \<in> set matchOperators then None
      else rparse cs n (Lit c # cur) stk)"
  by pat_completeness auto
termination
  by (relation "measure (\<lambda>(s, n, cur, stk). length s)") (auto dest: class_body_length)

definition parse_regex :: "string \<Rightarrow> regex option" where
  "parse_regex source = rparse source 0 [] []"

subsection \<open>Matching\<close>

text \<open>
  A match state is the end index, the input from there on, and the captures. \<open>m r st\<close>
  lists the states in which \<open>r\<close> can end when started in \<open>st\<close>, in the order in which the
  backtracking matcher tries them: greedy quantifiers try one more iteration before they
  stop. An iteration of \<open>*\<close> or \<open>?\<close> that consumes nothing is dropped (the end index and
  the length of the remaining input move together, and the test is written on the
  length), and the captures of the groups inside a quantified term are cleared before each
  iteration.
\<close>

record mstate =
  endIndex :: nat
  remaining :: string
  captures :: "nat \<Rightarrow> string option"

fun groups :: "regex \<Rightarrow> nat list" where
  "groups (Seq a b) = groups a @ groups b"
| "groups (Group k r) = k # groups r"
| "groups (NonCap r) = groups r"
| "groups (Star r) = groups r"
| "groups (Plus r) = groups r"
| "groups (Opt r) = groups r"
| "groups r = []"

definition clear :: "regex \<Rightarrow> mstate \<Rightarrow> mstate" where
  "clear r st = st\<lparr>captures := (\<lambda>k. if k \<in> set (groups r) then None else captures st k)\<rparr>"

fun weight :: "regex \<Rightarrow> nat" where
  "weight (Seq a b) = Suc (weight a + weight b)"
| "weight (Group k r) = Suc (weight r)"
| "weight (NonCap r) = Suc (weight r)"
| "weight (Star r) = Suc (weight r)"
| "weight (Plus r) = Suc (Suc (weight r))"
| "weight (Opt r) = Suc (weight r)"
| "weight r = 0"

function m :: "regex \<Rightarrow> mstate \<Rightarrow> mstate list" where
  "m Empty st = [st]"
| "m (Lit c) st =
     (case remaining st of
        [] \<Rightarrow> []
      | x # xs \<Rightarrow> if x = c then [st\<lparr>endIndex := Suc (endIndex st), remaining := xs\<rparr>] else [])"
| "m (NegClass cs) st =
     (case remaining st of
        [] \<Rightarrow> []
      | x # xs \<Rightarrow> if x \<notin> set cs then [st\<lparr>endIndex := Suc (endIndex st), remaining := xs\<rparr>] else [])"
| "m AStart st = (if endIndex st = 0 then [st] else [])"
| "m AEnd st = (if remaining st = [] then [st] else [])"
| "m (Seq a b) st = concat (map (m b) (m a st))"
| "m (Group k r) st =
     map (\<lambda>st'. st'\<lparr>captures := (captures st')(k \<mapsto>
                     take (endIndex st' - endIndex st) (remaining st))\<rparr>) (m r st)"
| "m (NonCap r) st = m r st"
| "m (Star r) st =
     concat (map (\<lambda>st'. if length (remaining st') < length (remaining st)
                         then m (Star r) st' else []) (m r (clear r st))) @ [st]"
| "m (Plus r) st = concat (map (m (Star r)) (m r (clear r st)))"
| "m (Opt r) st =
     filter (\<lambda>st'. length (remaining st') < length (remaining st)) (m r (clear r st)) @ [st]"
  by pat_completeness auto
termination
  by (relation "inv_image (less_than <*lex*> less_than) (\<lambda>(r, st). (weight r, length (remaining st)))")
     auto

text \<open>
  \<open>exec\<close> without the global flag tries every start index from 0 on and returns the first
  match: the matched text, then the capture of each group.
\<close>

fun ngroups :: "regex \<Rightarrow> nat" where
  "ngroups r = length (groups r)"

fun exec_from :: "regex \<Rightarrow> nat \<Rightarrow> string \<Rightarrow> string option list option" where
  "exec_from r i s =
     (case m r \<lparr>endIndex = i, remaining = s, captures = (\<lambda>k. None)\<rparr> of
        st # _ \<Rightarrow> Some (Some (take (endIndex st - i) s) # map (captures st) [1..<Suc (ngroups r)])
      | [] \<Rightarrow> (case s of [] \<Rightarrow> None | c # s' \<Rightarrow> exec_from r (Suc i) s'))"

definition exec :: "regex \<Rightarrow> string \<Rightarrow> string option list option" where
  "exec r str = exec_from r 0 str"

section \<open>The compiled pattern\<close>

record Pattern =
  pattern_p :: string
  topic_p :: string
  regex_p :: regex
  fnParams_p :: "Token list"
  paramCount_p :: nat

text \<open>The constructor: \<open>tokenize\<close> may throw, and so may \<open>new RegExp\<close>. The extraction
  closure is represented by the token list it closes over.\<close>

definition Pattern_from :: "string \<Rightarrow> error + Pattern" where
  "Pattern_from pattern =
     (case tokenize pattern of
        Inl e \<Rightarrow> Inl e
      | Inr tokens \<Rightarrow>
          (case parse_regex (regexSource tokens) of
             None \<Rightarrow> Inl RegExpSyntaxError
           | Some re \<Rightarrow>
               Inr \<lparr> pattern_p = pattern, topic_p = buildTopic tokens, regex_p = re,
                     fnParams_p = tokens, paramCount_p = buildParameterCount tokens \<rparr>))"

definition getTopic :: "Pattern \<Rightarrow> string" where
  "getTopic P = topic_p P"

definition getPattern :: "Pattern \<Rightarrow> string" where
  "getPattern P = pattern_p P"

definition getParameterCount :: "Pattern \<Rightarrow> nat" where
  "getParameterCount P = paramCount_p P"

text \<open>
  The argument of \<open>buildParameterizedTopic\<close> is taken to be an object whose prototype is
  \<open>Object.prototype\<close>, given by its own properties. \<open>key in params\<close> holds for an own
  property and for a name that \<open>Object.prototype\<close> defines, and \<open>params[key]\<close> then reads the
  own value or the inherited one. The pieces are converted to strings by the outer \<open>join\<close>:
  an array is joined with commas, a built-in function gives its source text (the language
  fixes its shape, the spacing is the one Node prints), and for \<open>__proto__\<close> the getter
  returns \<open>Object.prototype\<close>, whose string is \<open>[object Object]\<close>.
\<close>

definition objectPrototype :: "(string \<times> string) list" where
  "objectPrototype =
     [(''constructor'', ''function Object() { [native code] }''),
      (''__defineGetter__'', ''function __defineGetter__() { [native code] }''),
      (''__defineSetter__'', ''function __defineSetter__() { [native code] }''),
      (''hasOwnProperty'', ''function hasOwnProperty() { [native code] }''),
      (''__lookupGetter__'', ''function __lookupGetter__() { [native code] }''),
      (''__lookupSetter__'', ''function __lookupSetter__() { [native code] }''),
      (''isPrototypeOf'', ''function isPrototypeOf() { [native code] }''),
      (''propertyIsEnumerable'', ''function propertyIsEnumerable() { [native code] }''),
      (''toString'', ''function toString() { [native code] }''),
      (''valueOf'', ''function valueOf() { [native code] }''),
      (''__proto__'', ''[object Object]''),
      (''toLocaleString'', ''function toLocaleString() { [native code] }'')]"

datatype jsvalue = Value pvalue | Builtin string

definition getProperty :: "(string \<rightharpoonup> pvalue) \<Rightarrow> string \<Rightarrow> jsvalue option" where
  "getProperty ps key =
     (case ps key of
        Some v \<Rightarrow> Some (Value v)
      | None \<Rightarrow> map_option Builtin (map_of objectPrototype key))"

definition toString :: "jsvalue \<Rightarrow> string" where
  "toString v =
     (case v of
        Value (Scalar s) \<Rightarrow> s
      | Value (Sequence vs) \<Rightarrow> join CHR '','' vs
      | Builtin s \<Rightarrow> s)"

definition buildParameterizedTopic :: "Pattern \<Rightarrow> (string \<rightharpoonup> pvalue) \<Rightarrow> string" where
  "buildParameterizedTopic P ps =
     join CHR ''/'' (map (\<lambda>token.
        if first_is CHR ''+'' token then
          (case getProperty ps (drop 1 token) of
             Some v \<Rightarrow> toString v
           | None \<Rightarrow> token)
        else if first_is CHR ''#'' token then
          (case getProperty ps (drop 1 token) of
             Some (Value (Sequence vs)) \<Rightarrow> join CHR ''/'' vs
           | Some v \<Rightarrow> toString v
           | None \<Rightarrow> token)
        else token) (split CHR ''/'' (pattern_p P)))"

definition match :: "Pattern \<Rightarrow> string \<Rightarrow> string option list option" where
  "match P topic = exec (regex_p P) topic"

definition getParameters :: "Pattern \<Rightarrow> string option list option \<Rightarrow> error + params" where
  "getParameters P mt = buildParameterFunction (fnParams_p P) mt"

section \<open>Properties of split and join\<close>


lemma split_nonempty [simp]: "split c s \<noteq> []"
  by (induction s) (auto split: list.splits)

lemma join_split [simp]: "join c (split c s) = s"
proof (induction s)
  case Nil show ?case by simp
next
  case (Cons x s)
  obtain y ys where ys: "split c s = y # ys" using split_nonempty[of c s] by (cases "split c s") auto
  show ?case using Cons ys by (cases ys) auto
qed

lemma split_notin: "x \<in> set (split c s) \<Longrightarrow> c \<notin> set x"
  by (induction s arbitrary: x) (auto split: if_splits list.splits)

lemma split_plain: "c \<notin> set x \<Longrightarrow> split c x = [x]"
  by (induction x) auto

lemma split_append: "c \<notin> set x \<Longrightarrow> split c (x @ c # s) = x # split c s"
  by (induction x) auto

lemma split_join: "xs \<noteq> [] \<Longrightarrow> \<forall>x\<in>set xs. c \<notin> set x \<Longrightarrow> split c (join c xs) = xs"
  by (induction c xs rule: join.induct) (auto simp: split_plain split_append)

section \<open>Tokenizing\<close>

text \<open>
  The three kinds of pattern segment, the token each one compiles to, and the condition
  under which \<open>tokenize\<close> succeeds: no segment starting with \<open>#\<close> before the last one.
\<close>


definition isSingle :: "string \<Rightarrow> bool" where "isSingle seg = first_is CHR ''+'' seg"
definition isMulti :: "string \<Rightarrow> bool" where "isMulti seg = first_is CHR ''#'' seg"
definition isRaw :: "string \<Rightarrow> bool" where "isRaw seg = (\<not> isSingle seg \<and> \<not> isMulti seg)"

definition multiToken :: "string \<Rightarrow> Token" where
  "multiToken token = \<lparr> type_t = MULTI, name_t = Some (drop 1 token),
                 piece = ''((?:[^/#+]+/)*)'', last_t = ''((?:[^/#+]+/?)*)'' \<rparr>"

definition token_of :: "string \<Rightarrow> Token" where
  "token_of seg = (if isSingle seg then processSingle seg
                   else if isMulti seg then multiToken seg else processRaw seg)"

definition multi_only_last :: "string list \<Rightarrow> bool" where
  "multi_only_last segs = (\<forall>i. Suc i < length segs \<longrightarrow> \<not> isMulti (segs ! i))"

lemma isSingle_not_multi: "isSingle s \<Longrightarrow> \<not> isMulti s"
  by (auto simp: isSingle_def isMulti_def first_is_def split: list.splits)

lemma map_tokens_ok:
  "\<forall>j < length segs. isMulti (segs ! j) \<longrightarrow> Suc (i + j) = length tokens
   \<Longrightarrow> map_tokens i segs tokens = Inr (map token_of segs)"
proof (induction segs arbitrary: i)
  case Nil show ?case by simp
next
  case (Cons s segs)
  have a: "\<forall>j<length segs. isMulti (segs ! j) \<longrightarrow> Suc (Suc i + j) = length tokens"
    using Cons.prems by fastforce
  have b: "isMulti s \<longrightarrow> Suc i = length tokens" using Cons.prems by fastforce
  have "processToken s i tokens = Inr (token_of s)"
    using b by (auto simp: processToken_def token_of_def isSingle_def isMulti_def processMulti_def multiToken_def)
  then show ?case using Cons.IH[OF a] by simp
qed

lemma processToken_err: "processToken s i tokens = Inl e \<Longrightarrow> e = MultiNotAtEnd"
  by (auto simp: processToken_def processMulti_def split: if_splits)

lemma map_tokens_err:
  "j < length segs \<Longrightarrow> isMulti (segs ! j) \<Longrightarrow> Suc (i + j) \<noteq> length tokens
   \<Longrightarrow> map_tokens i segs tokens = Inl MultiNotAtEnd"
proof (induction segs arbitrary: i j)
  case Nil then show ?case by simp
next
  case (Cons s segs)
  show ?case
  proof (cases j)
    case 0
    then have "isMulti s" "Suc i \<noteq> length tokens" using Cons.prems by auto
    then have "processToken s i tokens = Inl MultiNotAtEnd"
      by (auto simp: processToken_def isMulti_def processMulti_def first_is_def split: list.splits)
    then show ?thesis by simp
  next
    case (Suc j')
    then have "map_tokens (Suc i) segs tokens = Inl MultiNotAtEnd"
      using Cons.prems Cons.IH[of j' "Suc i"] by auto
    then show ?thesis by (auto split: sum.splits dest: processToken_err)
  qed
qed

lemma tokenize_cases:
  "tokenize p = (if multi_only_last (split CHR ''/'' p)
                 then Inr (map token_of (split CHR ''/'' p)) else Inl MultiNotAtEnd)"
proof (cases "multi_only_last (split CHR ''/'' p)")
  case True
  then have "\<forall>j < length (split CHR ''/'' p). isMulti (split CHR ''/'' p ! j) \<longrightarrow> Suc (0 + j) = length (split CHR ''/'' p)"
    unfolding multi_only_last_def by (metis Suc_lessI add_0 less_eq_Suc_le not_less_eq_eq)
  from map_tokens_ok[OF this] True show ?thesis by (simp add: tokenize_def)
next
  case False
  then obtain j where "Suc j < length (split CHR ''/'' p)" "isMulti (split CHR ''/'' p ! j)"
    unfolding multi_only_last_def by auto
  then have "map_tokens 0 (split CHR ''/'' p) (split CHR ''/'' p) = Inl MultiNotAtEnd"
    by (intro map_tokens_err[where j=j]) auto
  then show ?thesis using False by (simp add: tokenize_def)
qed

fun frag_src :: "Token list \<Rightarrow> string" where
  "frag_src [] = []"
| "frag_src [t] = last_t t"
| "frag_src [t, u] = (if type_t u = MULTI then last_t t else piece t) @ last_t u"
| "frag_src (t # u # v # ts) = piece t @ frag_src (u # v # ts)"

lemma reduce_regex_frag:
  "reduce_regex (pre @ rest) (length pre) rest acc = acc @ frag_src rest"
proof (induction rest arbitrary: pre acc rule: frag_src.induct)
  case 1 show ?case by simp
next
  case (2 t) show ?case by simp
next
  case (3 t u)
  have "reduce_regex (pre @ [t, u]) (Suc (length pre)) [u] a = a @ last_t u" for a
    using reduce_regex.simps(2)[of "(pre @ [t]) @ [u]" "length (pre @ [t])" u "[]" a] by simp
  then show ?case by simp
next
  case (4 t u v ts)
  have ih: "reduce_regex ((pre @ [t]) @ u # v # ts) (length (pre @ [t])) (u # v # ts) a = a @ frag_src (u # v # ts)" for a
    by (rule 4)
  have "reduce_regex (pre @ t # u # v # ts) (length pre) (t # u # v # ts) acc
        = reduce_regex (pre @ t # u # v # ts) (Suc (length pre)) (u # v # ts) (acc @ piece t)"
    by (subst reduce_regex.simps(2)) (simp add: Let_def del: reduce_regex.simps)
  then show ?case using ih[of "acc @ piece t"] by (simp del: reduce_regex.simps)
qed

lemma regexSource_frag: "regexSource tokens = ''^'' @ frag_src tokens @ ''$''"
  using reduce_regex_frag[of "[]" tokens "[]"] by (simp add: regexSource_def)

section \<open>The regular expression of a pattern\<close>

text \<open>
  The syntax trees of the fragments that the tokens contribute, and the proof that the
  parser reads the source built by \<open>buildRegularExpression\<close> as their sequence between the
  two anchors. Capturing groups are numbered from 1 in the order of the wildcards.
\<close>


definition cls :: regex where "cls = NegClass ''/#+''"

definition single_piece :: "nat \<Rightarrow> regex" where
  "single_piece k = Group k (seq_of [Plus cls, Lit CHR ''/''])"
definition single_last :: "nat \<Rightarrow> regex" where
  "single_last k = Group k (seq_of [Plus cls, Opt (Lit CHR ''/'')])"
definition multi_piece :: "nat \<Rightarrow> regex" where
  "multi_piece k = Group k (seq_of [Star (NonCap (seq_of [Plus cls, Lit CHR ''/'']))])"
definition multi_last :: "nat \<Rightarrow> regex" where
  "multi_last k = Group k (seq_of [Star (NonCap (seq_of [Plus cls, Opt (Lit CHR ''/'')]))])"

definition piece_ast :: "nat \<Rightarrow> string \<Rightarrow> regex list" where
  "piece_ast k seg = (if isSingle seg then [single_piece (Suc k)]
                      else if isMulti seg then [multi_piece (Suc k)]
                      else map Lit seg @ [Lit CHR ''/''])"
definition last_ast :: "nat \<Rightarrow> string \<Rightarrow> regex list" where
  "last_ast k seg = (if isSingle seg then [single_last (Suc k)]
                      else if isMulti seg then [multi_last (Suc k)]
                      else map Lit seg @ [Opt (Lit CHR ''/'')])"

definition gcount :: "string \<Rightarrow> nat" where
  "gcount seg = (if isRaw seg then 0 else 1)"

fun frag_ast :: "nat \<Rightarrow> string list \<Rightarrow> regex list" where
  "frag_ast k [] = []"
| "frag_ast k [p] = last_ast k p"
| "frag_ast k [p, q] = (if isMulti q then last_ast k p else piece_ast k p) @ last_ast (k + gcount p) q"
| "frag_ast k (p # q # r # ps) = piece_ast k p @ frag_ast (k + gcount p) (q # r # ps)"

lemma rparse_escape:
  "rparse (escapeStringRegexp str @ rest) n cur stk = rparse rest n (rev (map Lit str) @ cur) stk"
proof (induction str arbitrary: cur)
  case Nil show ?case by (simp add: escapeStringRegexp_def)
next
  case (Cons c str)
  have ih: "rparse (escapeStringRegexp str @ rest) n (Lit c # cur) stk
            = rparse rest n (rev (map Lit str) @ Lit c # cur) stk" by (rule Cons.IH)
  show ?case
  proof (cases "c \<in> set matchOperators")
    case True
    have "rparse (CHR 0x5C # c # escapeStringRegexp str @ rest) n cur stk
          = rparse (escapeStringRegexp str @ rest) n (Lit c # cur) stk"
      using True by (subst rparse.simps(2)) simp
    then show ?thesis using True ih by (simp add: escapeStringRegexp_def)
  next
    case False
    then have ne: "c \<noteq> CHR ''(''" "c \<noteq> CHR '')''" "c \<noteq> CHR ''*''" "c \<noteq> CHR ''+''" "c \<noteq> CHR ''?''"
      "c \<noteq> CHR 0x5C" "c \<noteq> CHR ''[''" "c \<noteq> CHR ''^''" "c \<noteq> CHR ''$''"
      by (auto simp: matchOperators_def)
    have "rparse (c # escapeStringRegexp str @ rest) n cur stk
          = rparse (escapeStringRegexp str @ rest) n (Lit c # cur) stk"
      using False ne by (subst rparse.simps(2)) simp
    then show ?thesis using False ih by (simp add: escapeStringRegexp_def)
  qed
qed

lemma rparse_slash:
  "rparse (CHR ''/'' # rest) n cur stk = rparse rest n (Lit CHR ''/'' # cur) stk"
  by (subst rparse.simps(2)) (simp add: matchOperators_def)

lemma rparse_opt:
  "quantifiable a \<Longrightarrow> rparse (CHR ''?'' # rest) n (a # cur) stk = rparse rest n (Opt a # cur) stk"
  by (subst rparse.simps(2)) simp

lemma rparse_single_piece:
  "rparse (''([^/#+]+/)'' @ rest) n cur stk = rparse rest (Suc n) (single_piece (Suc n) # cur) stk"
  by (simp add: single_piece_def cls_def matchOperators_def)

lemma rparse_single_last:
  "rparse (''([^/#+]+/?)'' @ rest) n cur stk = rparse rest (Suc n) (single_last (Suc n) # cur) stk"
  by (simp add: single_last_def cls_def matchOperators_def)

lemma rparse_multi_piece:
  "rparse (''((?:[^/#+]+/)*)'' @ rest) n cur stk = rparse rest (Suc n) (multi_piece (Suc n) # cur) stk"
  by (simp add: multi_piece_def cls_def matchOperators_def)

lemma rparse_multi_last:
  "rparse (''((?:[^/#+]+/?)*)'' @ rest) n cur stk = rparse rest (Suc n) (multi_last (Suc n) # cur) stk"
  by (simp add: multi_last_def cls_def matchOperators_def)

lemma rparse_piece:
  "rparse (piece (token_of seg) @ rest) n cur stk
   = rparse rest (n + gcount seg) (rev (piece_ast n seg) @ cur) stk"
proof -
  consider "isSingle seg" | "\<not> isSingle seg" "isMulti seg" | "isRaw seg"
    by (auto simp: isRaw_def)
  then show ?thesis
  proof cases
    case 1
    then show ?thesis using rparse_single_piece[of rest n cur stk]
      by (simp add: token_of_def processSingle_def piece_ast_def gcount_def isRaw_def del: rparse.simps)
  next
    case 2
    then show ?thesis using rparse_multi_piece[of rest n cur stk]
      by (simp add: token_of_def multiToken_def piece_ast_def gcount_def isRaw_def del: rparse.simps)
  next
    case 3
    then show ?thesis using rparse_escape[of seg "CHR ''/'' # rest" n cur stk]
      by (simp add: token_of_def processRaw_def Let_def piece_ast_def gcount_def isRaw_def rparse_slash del: rparse.simps)
  qed
qed

lemma rparse_last:
  "rparse (last_t (token_of seg) @ rest) n cur stk
   = rparse rest (n + gcount seg) (rev (last_ast n seg) @ cur) stk"
proof -
  consider "isSingle seg" | "\<not> isSingle seg" "isMulti seg" | "isRaw seg"
    by (auto simp: isRaw_def)
  then show ?thesis
  proof cases
    case 1
    then show ?thesis using rparse_single_last[of rest n cur stk]
      by (simp add: token_of_def processSingle_def last_ast_def gcount_def isRaw_def del: rparse.simps)
  next
    case 2
    then show ?thesis using rparse_multi_last[of rest n cur stk]
      by (simp add: token_of_def multiToken_def last_ast_def gcount_def isRaw_def del: rparse.simps)
  next
    case 3
    then show ?thesis using rparse_escape[of seg "CHR ''/'' # CHR ''?'' # rest" n cur stk]
      by (simp add: token_of_def processRaw_def Let_def last_ast_def gcount_def isRaw_def rparse_slash rparse_opt del: rparse.simps)
  qed
qed

definition nwild :: "string list \<Rightarrow> nat" where
  "nwild segs = sum_list (map gcount segs)"

lemma type_token_of: "type_t (token_of seg) = MULTI \<longleftrightarrow> isMulti seg"
  by (auto simp: token_of_def processSingle_def multiToken_def processRaw_def Let_def isSingle_not_multi)

lemma rparse_frag:
  "rparse (frag_src (map token_of segs) @ rest) n cur stk
   = rparse rest (n + nwild segs) (rev (frag_ast n segs) @ cur) stk"
proof (induction n segs arbitrary: cur rule: frag_ast.induct)
  case (1 k) show ?case by (simp add: nwild_def)
next
  case (2 k p) show ?case using rparse_last[of p rest k cur stk] by (simp add: nwild_def del: rparse.simps)
next
  case (3 k p q)
  show ?case
    using rparse_last[of p "last_t (token_of q) @ rest" k cur stk]
      rparse_piece[of p "last_t (token_of q) @ rest" k cur stk]
      rparse_last[of q rest "k + gcount p"]
    by (simp add: nwild_def type_token_of add.assoc del: rparse.simps)
next
  case (4 k p q r ps)
  show ?case
    using rparse_piece[of p "frag_src (map token_of (q # r # ps)) @ rest" k cur stk]
      4[of "rev (piece_ast k p) @ cur"]
    by (simp add: nwild_def add.assoc del: rparse.simps)
qed

definition pattern_regex :: "string list \<Rightarrow> regex" where
  "pattern_regex segs = seq_of (AStart # frag_ast 0 segs @ [AEnd])"

lemma parse_regexSource:
  "parse_regex (regexSource (map token_of segs)) = Some (pattern_regex segs)"
proof -
  have "rparse (CHR ''^'' # frag_src (map token_of segs) @ ''$'') 0 [] []
        = rparse (frag_src (map token_of segs) @ ''$'') 0 [AStart] []"
    by (subst rparse.simps(2)) simp
  also have "\<dots> = rparse ''$'' (0 + nwild segs) (rev (frag_ast 0 segs) @ [AStart]) []"
    by (rule rparse_frag)
  also have "\<dots> = Some (pattern_regex segs)"
    by (simp add: pattern_regex_def)
  finally show ?thesis by (simp add: parse_regex_def regexSource_frag)
qed

section \<open>Properties of the matcher\<close>

text \<open>
  The equation of \<open>*\<close> calls itself under a binder, so it is unfolded by hand. Every
  result of the matcher is the start state advanced over a prefix of the input, and a term
  changes only the captures of its own groups.
\<close>


declare m.simps(9) [simp del]

definition adv :: "nat \<Rightarrow> mstate \<Rightarrow> mstate" where
  "adv n st = st\<lparr>endIndex := endIndex st + n, remaining := drop n (remaining st)\<rparr>"

lemma adv_simps [simp]:
  "endIndex (adv n st) = endIndex st + n"
  "remaining (adv n st) = drop n (remaining st)"
  "captures (adv n st) = captures st"
  by (simp_all add: adv_def)

lemma adv_0 [simp]: "adv 0 st = st" by (simp add: adv_def)
lemma adv_adv [simp]: "adv a (adv b st) = adv (b + a) st" by (simp add: adv_def add.assoc add.commute)

lemma clear_simps [simp]:
  "endIndex (clear r st) = endIndex st"
  "remaining (clear r st) = remaining st"
  by (simp_all add: clear_def)

lemma clear_nogroups [simp]: "groups r = [] \<Longrightarrow> clear r st = st"
  by (simp add: clear_def)

lemma m_consumes:
  "st' \<in> set (m r st) \<Longrightarrow> \<exists>u. remaining st = u @ remaining st' \<and> endIndex st' = endIndex st + length u"
proof (induction r st arbitrary: st' rule: m.induct)
  case (1 st) then show ?case by simp
next
  case (2 c st) then show ?case by (cases "remaining st") (auto split: if_splits)
next
  case (3 cs st) then show ?case by (cases "remaining st") (auto split: if_splits)
next
  case (4 st) then show ?case by (auto split: if_splits)
next
  case (5 st) then show ?case by (auto split: if_splits)
next
  case (6 a b st)
  from 6(3) obtain s1 where s1: "s1 \<in> set (m a st)" "st' \<in> set (m b s1)" by auto
  from 6(1)[OF s1(1)] obtain u1 where u1: "remaining st = u1 @ remaining s1" "endIndex s1 = endIndex st + length u1" by blast
  from 6(2)[OF s1] obtain u2 where u2: "remaining s1 = u2 @ remaining st'" "endIndex st' = endIndex s1 + length u2" by blast
  show ?case using u1 u2 by (intro exI[of _ "u1 @ u2"]) simp
next
  case (7 k r st)
  from 7(2) obtain s1 where s1: "s1 \<in> set (m r st)" "remaining st' = remaining s1" "endIndex st' = endIndex s1"
    by auto
  from 7(1)[OF s1(1)] show ?case using s1 by simp
next
  case (8 r st) then show ?case by simp
next
  case (9 r st)
  from 9(3) have "st' = st \<or> (\<exists>s1 \<in> set (m r (clear r st)). length (remaining s1) < length (remaining st) \<and> st' \<in> set (m (Star r) s1))"
    by (subst (asm) m.simps(9)) (auto split: if_splits)
  then show ?case
  proof
    assume "st' = st" then show ?thesis by simp
  next
    assume "\<exists>s1 \<in> set (m r (clear r st)). length (remaining s1) < length (remaining st) \<and> st' \<in> set (m (Star r) s1)"
    then obtain s1 where s1: "s1 \<in> set (m r (clear r st))" "length (remaining s1) < length (remaining st)" "st' \<in> set (m (Star r) s1)" by blast
    from 9(1)[OF s1(1)] obtain u1 where u1: "remaining st = u1 @ remaining s1" "endIndex s1 = endIndex st + length u1" by auto
    from 9(2)[OF s1] obtain u2 where u2: "remaining s1 = u2 @ remaining st'" "endIndex st' = endIndex s1 + length u2" by blast
    show ?thesis using u1 u2 by (intro exI[of _ "u1 @ u2"]) simp
  qed
next
  case (10 r st)
  from 10(3) obtain s1 where s1: "s1 \<in> set (m r (clear r st))" "st' \<in> set (m (Star r) s1)" by auto
  from 10(1)[OF s1(1)] obtain u1 where u1: "remaining st = u1 @ remaining s1" "endIndex s1 = endIndex st + length u1" by auto
  from 10(2)[OF s1] obtain u2 where u2: "remaining s1 = u2 @ remaining st'" "endIndex st' = endIndex s1 + length u2" by blast
  show ?case using u1 u2 by (intro exI[of _ "u1 @ u2"]) simp
next
  case (11 r st)
  from 11(2) have "st' = st \<or> st' \<in> set (m r (clear r st))" by auto
  then show ?case using 11(1)[of st'] by auto
qed

lemma m_caps_other:
  "st' \<in> set (m r st) \<Longrightarrow> k \<notin> set (groups r) \<Longrightarrow> captures st' k = captures st k"
proof (induction r st arbitrary: st' rule: m.induct)
  case (1 st) then show ?case by simp
next
  case (2 c st) then show ?case by (cases "remaining st") (auto split: if_splits)
next
  case (3 cs st) then show ?case by (cases "remaining st") (auto split: if_splits)
next
  case (4 st) then show ?case by (auto split: if_splits)
next
  case (5 st) then show ?case by (auto split: if_splits)
next
  case (6 a b st)
  from 6(3) obtain s1 where s1: "s1 \<in> set (m a st)" "st' \<in> set (m b s1)" by auto
  show ?case using 6(1)[OF s1(1)] 6(2)[OF s1] 6(4) by simp
next
  case (7 j r st)
  from 7(2) obtain s1 where s1: "s1 \<in> set (m r st)" "captures st' k = ((captures s1)(j \<mapsto> take (endIndex s1 - endIndex st) (remaining st))) k"
    by auto
  show ?case using 7(1)[OF s1(1)] s1(2) 7(3) by simp
next
  case (8 r st) then show ?case by simp
next
  case (9 r st)
  from 9(3) have "st' = st \<or> (\<exists>s1 \<in> set (m r (clear r st)). length (remaining s1) < length (remaining st) \<and> st' \<in> set (m (Star r) s1))"
    by (subst (asm) m.simps(9)) (auto split: if_splits)
  then show ?case
  proof
    assume "st' = st" then show ?thesis by simp
  next
    assume "\<exists>s1 \<in> set (m r (clear r st)). length (remaining s1) < length (remaining st) \<and> st' \<in> set (m (Star r) s1)"
    then obtain s1 where s1: "s1 \<in> set (m r (clear r st))" "length (remaining s1) < length (remaining st)" "st' \<in> set (m (Star r) s1)" by blast
    show ?thesis using 9(1)[OF s1(1)] 9(2)[OF s1] 9(4) by (simp add: clear_def)
  qed
next
  case (10 r st)
  from 10(3) obtain s1 where s1: "s1 \<in> set (m r (clear r st))" "st' \<in> set (m (Star r) s1)" by auto
  show ?case using 10(1)[OF s1(1)] 10(2)[OF s1] 10(4) by (simp add: clear_def)
next
  case (11 r st)
  from 11(2) have "st' = st \<or> st' \<in> set (m r (clear r st))" by auto
  then show ?case using 11(1)[of st'] 11(3) by (auto simp: clear_def)
qed

lemma m_seq_append:
  "m (seq_of (xs @ ys)) st = concat (map (m (seq_of ys)) (m (seq_of xs) st))"
proof (induction xs arbitrary: st)
  case Nil show ?case by simp
next
  case (Cons x xs)
  have "concat (map (\<lambda>s. concat (map (m (seq_of ys)) (m (seq_of xs) s))) zs)
        = concat (map (m (seq_of ys)) (concat (map (m (seq_of xs)) zs)))" for zs
    by (induction zs) auto
  moreover have "m (seq_of (xs @ ys)) = (\<lambda>s. concat (map (m (seq_of ys)) (m (seq_of xs) s)))"
    using Cons by (intro ext)
  ultimately show ?case by simp
qed

definition segchar :: "char \<Rightarrow> bool" where
  "segchar c = (c \<notin> set ''/#+'')"

lemma m_cls: "m cls st = (case remaining st of [] \<Rightarrow> [] | x # xs \<Rightarrow> if segchar x then [adv 1 st] else [])"
  by (auto simp: cls_def segchar_def adv_def split: list.splits)

lemma m_lit: "m (Lit c) st = (case remaining st of [] \<Rightarrow> [] | x # xs \<Rightarrow> if x = c then [adv 1 st] else [])"
  by (auto simp: adv_def split: list.splits)

declare m.simps(2,3) [simp del]

lemma m_lits:
  "m (seq_of (map Lit str)) st = (if prefix str (remaining st) then [adv (length str) st] else [])"
proof (induction str arbitrary: st)
  case Nil show ?case by simp
next
  case (Cons c str)
  show ?case
  proof (cases "remaining st")
    case Nil then show ?thesis by (simp add: m_lit)
  next
    case (Cons x xs)
    then show ?thesis using Cons.IH[of "adv 1 st"] by (auto simp: m_lit)
  qed
qed

lemma groups_cls [simp]: "groups cls = []"
  by (simp add: cls_def)

definition states :: "nat list \<Rightarrow> mstate \<Rightarrow> mstate list" where
  "states js st = map (\<lambda>j. adv j st) js"

lemma m_star_cls:
  "m (Star cls) st = states (rev [0..<Suc (length (takeWhile segchar (remaining st)))]) st"
proof (induction "remaining st" arbitrary: st)
  case Nil
  then show ?case by (subst m.simps(9)) (simp add: m_cls states_def)
next
  case (Cons x xs)
  have g: "groups cls = []" by (simp add: cls_def)
  show ?case
  proof (cases "segchar x")
    case False
    then show ?thesis using Cons(2)[symmetric] by (subst m.simps(9)) (simp add: m_cls g states_def)
  next
    case True
    have r1: "xs = remaining (adv 1 st)" using Cons(2)[symmetric] by simp
    have "m (Star cls) st = m (Star cls) (adv 1 st) @ [st]"
      using Cons(2)[symmetric] True by (subst m.simps(9)) (simp add: m_cls g)
    also have "\<dots> = states (rev [0..<Suc (length (takeWhile segchar xs))]) (adv 1 st) @ [st]"
      using Cons(1)[OF r1] r1 by simp
    also have "\<dots> = states (rev [0..<Suc (length (takeWhile segchar (remaining st)))]) st"
    proof -
      have "map (\<lambda>j. adv j (adv 1 st)) (rev [0..<Suc n]) @ [st] = map (\<lambda>j. adv j st) (rev [0..<Suc (Suc n)])" for n
      proof -
        have "[0..<Suc (Suc n)] = 0 # map Suc [0..<Suc n]"
          by (metis map_Suc_upt upt_conv_Cons zero_less_Suc)
        then show ?thesis by (simp add: rev_map comp_def del: upt_Suc)
      qed
      then show ?thesis using Cons(2)[symmetric] True by (simp add: states_def del: upt_Suc)
    qed
    finally show ?thesis .
  qed
qed

lemma m_plus_cls:
  "m (Plus cls) st = states (rev [1..<Suc (length (takeWhile segchar (remaining st)))]) st"
proof (cases "remaining st")
  case Nil
  then show ?thesis by (simp add: m_cls states_def)
next
  case (Cons x xs)
  have g: "groups cls = []" by (simp add: cls_def)
  show ?thesis
  proof (cases "segchar x")
    case False then show ?thesis using Cons by (simp add: m_cls g states_def)
  next
    case True
    have "m (Plus cls) st = m (Star cls) (adv 1 st)" using Cons True by (simp add: m_cls g)
    also have "\<dots> = map (\<lambda>j. adv j (adv 1 st)) (rev [0..<Suc (length (takeWhile segchar xs))])"
      using Cons by (simp add: m_star_cls states_def)
    also have "\<dots> = map (\<lambda>j. adv j st) (rev [1..<Suc (Suc (length (takeWhile segchar xs)))])"
    proof -
      have "[1..<Suc (Suc n)] = map Suc [0..<Suc n]" for n
        by (metis One_nat_def map_Suc_upt)
      then show ?thesis by (simp add: rev_map comp_def del: upt_Suc)
    qed
    finally show ?thesis using Cons True by (simp add: states_def)
  qed
qed

declare m.simps(10) [simp del]

subsection \<open>The loop of the multi wildcard\<close>

text \<open>
  \<open>wellsep False s\<close> says that \<open>s\<close> consists of non-empty runs of characters other than
  \<open>/\<close>, \<open>#\<close>, \<open>+\<close>, each run but the last followed by one \<open>/\<close>, the last optionally so:
  the strings that \<open>(?:[^/#+]+/?)*\<close> can consume entirely.
\<close>


fun wellsep :: "bool \<Rightarrow> string \<Rightarrow> bool" where
  "wellsep b [] = True"
| "wellsep b (c # cs) = (if c = CHR ''/'' then b \<and> wellsep False cs else segchar c \<and> wellsep True cs)"

lemma wellsep_mono: "wellsep False s \<Longrightarrow> wellsep True s"
  by (cases s) auto

lemma wellsep_word_append:
  "list_all segchar w \<Longrightarrow> w \<noteq> [] \<Longrightarrow> wellsep b (w @ v) = wellsep True v"
proof (induction w arbitrary: b)
  case Nil then show ?case by simp
next
  case (Cons c w)
  then have c: "segchar c" "c \<noteq> CHR ''/''" by (auto simp: segchar_def)
  show ?case
  proof (cases w)
    case Nil then show ?thesis using c by simp
  next
    case (Cons d w')
    then show ?thesis using Cons.IH[of True] Cons.prems c by simp
  qed
qed

lemma segchar_takeWhile [simp]: "list_all segchar (takeWhile segchar s)"
  by (induction s) auto

definition body :: regex where
  "body = NonCap (seq_of [Plus cls, Opt (Lit CHR ''/'')])"

lemma groups_body [simp]: "groups body = []"
  by (simp add: body_def cls_def)

lemma m_opt_slash:
  "m (Opt (Lit CHR ''/'')) s =
     (case remaining s of [] \<Rightarrow> [s] | x # xs \<Rightarrow> if x = CHR ''/'' then [adv 1 s, s] else [s])"
  by (auto simp: m_lit clear_def split: list.splits simp del: m.simps(2))

declare m.simps(11) [simp del]

lemma set_m_body:
  "set (m body s) =
     {x. \<exists>j. 1 \<le> j \<and> j \<le> length (takeWhile segchar (remaining s)) \<and>
          (x = adv j s \<or> (x = adv (Suc j) s \<and> take 1 (drop j (remaining s)) = ''/''))}"
proof -
  have a: "set (m (Opt (Lit CHR ''/'')) t) = {x. x = t \<or> (x = adv 1 t \<and> take 1 (remaining t) = ''/'')}" for t
    by (cases "remaining t") (auto simp: m_opt_slash simp del: m.simps)
  have "set (m body s) = (\<Union>j \<in> {1..length (takeWhile segchar (remaining s))}. set (m (Opt (Lit CHR ''/'')) (adv j s)))"
    by (simp add: body_def m_plus_cls states_def atLeastLessThanSuc_atLeastAtMost del: upt_Suc)
  also have "\<dots> = {x. \<exists>j. 1 \<le> j \<and> j \<le> length (takeWhile segchar (remaining s)) \<and>
          (x = adv j s \<or> (x = adv (Suc j) s \<and> take 1 (drop j (remaining s)) = ''/''))}"
    unfolding a by (auto simp: add.commute)
  finally show ?thesis .
qed

lemma star_body_unfold:
  "x \<in> set (m (Star body) st) \<longleftrightarrow>
     x = st \<or> (\<exists>s1 \<in> set (m body st). length (remaining s1) < length (remaining st) \<and> x \<in> set (m (Star body) s1))"
  by (subst m.simps(9)) auto

lemma take_takeWhile_segchar:
  "j \<le> length (takeWhile segchar s) \<Longrightarrow> list_all segchar (take j s)"
proof -
  assume j: "j \<le> length (takeWhile segchar s)"
  have "take j s = take j (takeWhile segchar s)"
    by (metis j append_eq_conv_conj append_take_drop_id take_all_iff takeWhile_dropWhile_id take_append diff_is_0_eq' take_0 append_Nil2)
  moreover have "list_all segchar (take j (takeWhile segchar s))"
    by (metis segchar_takeWhile list_all_iff in_set_takeD)
  ultimately show ?thesis by simp
qed

lemma slash_after_word:
  "j \<le> length (takeWhile segchar s) \<Longrightarrow> take 1 (drop j s) = ''/'' \<Longrightarrow> j = length (takeWhile segchar s)"
proof (rule ccontr)
  assume j: "j \<le> length (takeWhile segchar s)" and t: "take 1 (drop j s) = ''/''" and "j \<noteq> length (takeWhile segchar s)"
  then have lt: "j < length (takeWhile segchar s)" by simp
  then have "segchar (takeWhile segchar s ! j)" by (metis nth_mem set_takeWhileD)
  moreover have "takeWhile segchar s ! j = s ! j" using lt by (rule takeWhile_nth)
  moreover have "j < length s" using lt by (metis length_takeWhile_le less_le_trans)
  then have "s ! j = CHR ''/''" using t by (metis Cons_nth_drop_Suc list.inject take_Suc_Cons One_nat_def)
  ultimately show False by (simp add: segchar_def)
qed

definition consumed :: "mstate \<Rightarrow> mstate \<Rightarrow> string" where
  "consumed st x = take (length (remaining st) - length (remaining x)) (remaining st)"

lemma consumed_trans:
  assumes "remaining st = u1 @ remaining s1" "remaining s1 = u2 @ remaining x"
  shows "consumed st x = u1 @ consumed s1 x" "consumed st s1 = u1"
  using assms by (simp_all add: consumed_def)

lemma star_body_sound:
  "x \<in> set (m (Star body) st) \<Longrightarrow> wellsep False (consumed st x)"
proof (induction "length (remaining st)" arbitrary: st rule: less_induct)
  case less
  from less(2) consider "x = st"
    | s1 where "s1 \<in> set (m body st)" "length (remaining s1) < length (remaining st)" "x \<in> set (m (Star body) s1)"
    using star_body_unfold[of x st] by blast
  then show ?case
  proof cases
    case 1 then show ?thesis by (simp add: consumed_def)
  next
    case 2
    have ih: "wellsep False (consumed s1 x)" using less(1)[OF 2(2) 2(3)] .
    from m_consumes[OF 2(3)] obtain u2 where u2: "remaining s1 = u2 @ remaining x" by blast
    from 2(1) obtain j where j: "1 \<le> j" "j \<le> length (takeWhile segchar (remaining st))"
      "s1 = adv j st \<or> (s1 = adv (Suc j) st \<and> take 1 (drop j (remaining st)) = ''/'')"
      unfolding set_m_body by blast
    have w: "list_all segchar (take j (remaining st))" "take j (remaining st) \<noteq> []"
      using take_takeWhile_segchar[OF j(2)] j(1) j(2) by auto
    from j(3) show ?thesis
    proof
      assume s1: "s1 = adv j st"
      have "remaining st = take j (remaining st) @ remaining s1" using s1 by simp
      from consumed_trans(1)[OF this u2] show ?thesis
        using wellsep_word_append[OF w] wellsep_mono[OF ih] by simp
    next
      assume s1: "s1 = adv (Suc j) st \<and> take 1 (drop j (remaining st)) = ''/''"
      then have "drop j (remaining st) = CHR ''/'' # remaining s1"
        by (cases "drop j (remaining st)") (auto simp: drop_Suc drop_tl)
      then have "remaining st = (take j (remaining st) @ ''/'') @ remaining s1"
        by (metis append_take_drop_id append.assoc append_Cons append_Nil)
      from consumed_trans(1)[OF this u2] show ?thesis
        using wellsep_word_append[OF w, of False "CHR ''/'' # consumed s1 x"] ih by simp
    qed
  qed
qed

lemma star_body_complete:
  "wellsep False (remaining st) \<Longrightarrow> \<exists>x \<in> set (m (Star body) st). remaining x = []"
proof (induction "length (remaining st)" arbitrary: st rule: less_induct)
  case less
  show ?case
  proof (cases "remaining st")
    case Nil then show ?thesis using star_body_unfold[of st st] by auto
  next
    case (Cons c cs)
    define w where "w = takeWhile segchar (remaining st)"
    define r where "r = dropWhile segchar (remaining st)"
    have wr: "remaining st = w @ r" by (simp add: w_def r_def)
    have c: "segchar c" using less(2) Cons by (auto simp: segchar_def split: if_splits)
    then have wne: "w \<noteq> []" using Cons by (simp add: w_def)
    have lw: "list_all segchar w" by (simp add: w_def)
    have w1: "1 \<le> length (takeWhile segchar (remaining st))" using wne by (cases w) (auto simp: w_def)
    have wsr: "wellsep True r" using less(2) wellsep_word_append[OF lw wne, of False r] wr by simp
    have dr: "drop (length w) (remaining st) = r" using wr by simp
    show ?thesis
    proof (cases r)
      case Nil
      have "adv (length w) st \<in> set (m body st)"
        unfolding set_m_body using w1 by (auto simp: w_def intro!: exI[of _ "length w"])
      moreover have "remaining (adv (length w) st) = []" using dr Nil by simp
      moreover have "length (remaining (adv (length w) st)) < length (remaining st)" using Cons dr Nil by simp
      ultimately show ?thesis using star_body_unfold[of "adv (length w) st" st]
          star_body_unfold[of "adv (length w) st" "adv (length w) st"] by blast
    next
      case (Cons d r')
      have "\<not> segchar d" using Cons r_def by (metis hd_dropWhile list.sel(1) list.distinct(1))
      then have d: "d = CHR ''/''" and ws: "wellsep False r'" using wsr Cons by (auto split: if_splits)
      define s1 where "s1 = adv (Suc (length w)) st"
      have rs1: "remaining s1 = r'" using dr Cons by (simp add: s1_def drop_Suc drop_tl)
      have "take 1 (drop (length w) (remaining st)) = ''/''" using dr Cons d by simp
      then have in1: "s1 \<in> set (m body st)"
        unfolding set_m_body s1_def using w1 by (auto simp: w_def intro!: exI[of _ "length w"])
      have lt: "length (remaining s1) < length (remaining st)" using rs1 wr Cons by simp
      from less(1)[OF lt] ws rs1 obtain x where "x \<in> set (m (Star body) s1)" "remaining x = []" by auto
      then show ?thesis using star_body_unfold[of x st] in1 lt by blast
    qed
  qed
qed

subsection \<open>First results\<close>

text \<open>\<open>exec\<close> takes the first state of the result list; \<open>first\<close> names it.\<close>


definition first :: "'a list \<Rightarrow> 'a option" where
  "first xs = (case xs of [] \<Rightarrow> None | x # _ \<Rightarrow> Some x)"

lemma first_simps [simp]: "first [] = None" "first (x # xs) = Some x"
  by (simp_all add: first_def)

lemma first_None [simp]: "first xs = None \<longleftrightarrow> xs = []"
  by (cases xs) auto

lemma first_all_eq: "xs \<noteq> [] \<Longrightarrow> \<forall>x\<in>set xs. x = a \<Longrightarrow> first xs = Some a"
  by (cases xs) auto

lemma first_append: "first (xs @ ys) = (case first xs of Some x \<Rightarrow> Some x | None \<Rightarrow> first ys)"
  by (cases xs) auto

lemma concat_all_nil: "\<forall>x\<in>set xs. f x = [] \<Longrightarrow> concat (map f xs) = []"
  by (induction xs) auto

definition finst :: "mstate \<Rightarrow> (nat \<Rightarrow> string option) \<Rightarrow> mstate" where
  "finst st c = \<lparr>endIndex = endIndex st + length (remaining st), remaining = [], captures = c\<rparr>"

definition capset :: "nat \<Rightarrow> string \<Rightarrow> mstate \<Rightarrow> mstate" where
  "capset k v s = s\<lparr>captures := (captures s)(k \<mapsto> v)\<rparr>"

lemma capset_simps [simp]:
  "endIndex (capset k v s) = endIndex s"
  "remaining (capset k v s) = remaining s"
  "captures (capset k v s) = (captures s)(k \<mapsto> v)"
  by (simp_all add: capset_def)

lemma finst_adv: "j \<le> length (remaining st) \<Longrightarrow> finst (capset k v (adv j st)) c = finst st c"
  by (simp add: finst_def)

lemma finst_adv': "j \<le> length (remaining st) \<Longrightarrow> finst (adv j st) c = finst st c"
  by (simp add: finst_def)

lemma m_then_end: "m (seq_of (xs @ [AEnd])) st = filter (\<lambda>s. remaining s = []) (m (seq_of xs) st)"
proof -
  have "concat (map (m (seq_of [AEnd])) zs) = filter (\<lambda>s. remaining s = []) zs" for zs
    by (induction zs) auto
  then show ?thesis by (simp add: m_seq_append del: seq_of.simps)
qed

lemma m_group:
  "m (Group k r) st = map (\<lambda>s. capset k (consumed st s) s) (m r st)"
proof -
  have "s \<in> set (m r st) \<Longrightarrow> take (endIndex s - endIndex st) (remaining st) = consumed st s" for s
    using m_consumes[of s r st] by (auto simp: consumed_def)
  then show ?thesis by (simp add: capset_def)
qed

declare m.simps(7) [simp del]

lemma concat_map_Empty [simp]: "concat (map (m Empty) xs) = xs"
  by (induction xs) auto

lemma m_single [simp]: "m (seq_of [r]) st = m r st"
  by simp

lemma m_multi_last: "m (multi_last k) st = map (\<lambda>s. capset k (consumed st s) s) (m (Star body) st)"
  by (simp add: multi_last_def m_group body_def)

lemma multi_tail_set:
  "set (m (seq_of [multi_last k, AEnd]) st) \<subseteq> {finst st ((captures st)(k \<mapsto> remaining st))}"
proof
  fix x assume "x \<in> set (m (seq_of [multi_last k, AEnd]) st)"
  then have "x \<in> set (m (multi_last k) st)" "remaining x = []"
    using m_then_end[of "[multi_last k]" st] by (simp_all del: seq_of.simps add: m_single)
  then obtain s0 where s0: "s0 \<in> set (m (Star body) st)" "x = capset k (consumed st s0) s0"
    by (auto simp: m_multi_last)
  have r0: "remaining s0 = []" using s0 \<open>remaining x = []\<close> by simp
  from m_consumes[OF s0(1)] r0 have e: "endIndex s0 = endIndex st + length (remaining st)" by auto
  have c: "captures s0 = captures st" using m_caps_other[OF s0(1)] by (intro ext) simp
  have "consumed st s0 = remaining st" using r0 by (simp add: consumed_def)
  then have "x = finst st ((captures st)(k \<mapsto> remaining st))"
    using s0(2) r0 e c by (simp add: finst_def capset_def)
  then show "x \<in> {finst st ((captures st)(k \<mapsto> remaining st))}" by simp
qed

lemma multi_tail_nonempty:
  "m (seq_of [multi_last k, AEnd]) st \<noteq> [] \<longleftrightarrow> wellsep False (remaining st)"
proof
  assume "m (seq_of [multi_last k, AEnd]) st \<noteq> []"
  then obtain x where "x \<in> set (m (seq_of [multi_last k, AEnd]) st)" by (meson last_in_set)
  then have "x \<in> set (m (multi_last k) st)" "remaining x = []"
    using m_then_end[of "[multi_last k]" st] by (simp_all del: seq_of.simps add: m_single)
  then obtain s0 where s0: "s0 \<in> set (m (Star body) st)" "remaining s0 = []"
    by (auto simp: m_multi_last)
  from star_body_sound[OF s0(1)] s0(2) show "wellsep False (remaining st)" by (simp add: consumed_def)
next
  assume "wellsep False (remaining st)"
  from star_body_complete[OF this] obtain s0 where s0: "s0 \<in> set (m (Star body) st)" "remaining s0 = []" by blast
  then have "capset k (consumed st s0) s0 \<in> set (m (multi_last k) st)"
    by (auto simp: m_multi_last)
  then have "capset k (consumed st s0) s0 \<in> set (m (seq_of [multi_last k, AEnd]) st)"
    using m_then_end[of "[multi_last k]" st] s0(2) by (simp del: seq_of.simps add: m_single)
  then show "m (seq_of [multi_last k, AEnd]) st \<noteq> []" by (metis empty_iff empty_set)
qed

lemma multi_tail:
  "first (m (seq_of [multi_last k, AEnd]) st) =
     (if wellsep False (remaining st) then Some (finst st ((captures st)(k \<mapsto> remaining st))) else None)"
proof (cases "wellsep False (remaining st)")
  case True
  then have "m (seq_of [multi_last k, AEnd]) st \<noteq> []" using multi_tail_nonempty[of k st] by blast
  from first_all_eq[OF this] multi_tail_set[of k st] True show ?thesis by auto
next
  case False
  then have "m (seq_of [multi_last k, AEnd]) st = []" using multi_tail_nonempty[of k st] by blast
  then show ?thesis using False by (simp del: seq_of.simps)
qed

subsection \<open>The fragments of a single wildcard\<close>


lemma m_lit_slash:
  "m (Lit CHR ''/'') s = (if take 1 (remaining s) = ''/'' then [adv 1 s] else [])"
  by (cases "remaining s") (auto simp: m_lit simp del: m.simps)

lemma m_opt_slash':
  "m (Opt (Lit CHR ''/'')) s = (if take 1 (remaining s) = ''/'' then [adv 1 s, s] else [s])"
  by (cases "remaining s") (auto simp: m_opt_slash simp del: m.simps)

lemma greedy_head:
  fixes f :: "nat \<Rightarrow> 'a list"
  shows "1 \<le> n \<Longrightarrow> concat (map f (rev [1..<Suc n])) = f n @ concat (map f (rev [1..<n]))"
  by simp

lemma drop_word: "drop (length (takeWhile segchar s)) s = dropWhile segchar s"
  by (simp add: dropWhile_eq_drop)

lemma word_len_le: "length (takeWhile segchar s) \<le> length s"
  by (rule length_takeWhile_le)

lemma slash_lt: "take 1 (drop n s) = ''/'' \<Longrightarrow> n < length s"
  by (cases "n < length s") auto

lemma m_word_then:
  "m (Seq (Plus cls) R) st =
     concat (map (\<lambda>j. m R (adv j st)) (rev [1..<Suc (length (takeWhile segchar (remaining st)))]))"
  by (simp add: m_plus_cls states_def comp_def del: upt_Suc)

lemma word_slash:
  "concat (map (\<lambda>j. m (Lit CHR ''/'') (adv j st)) (rev [1..<Suc (length (takeWhile segchar (remaining st)))]))
   = (if takeWhile segchar (remaining st) \<noteq> [] \<and> take 1 (dropWhile segchar (remaining st)) = ''/''
      then [adv (Suc (length (takeWhile segchar (remaining st)))) st] else [])"
proof -
  define n where "n = length (takeWhile segchar (remaining st))"
  have inner: "\<forall>j\<in>set (rev [1..<n]). m (Lit CHR ''/'') (adv j st) = []"
  proof
    fix j assume "j \<in> set (rev [1..<n])"
    then have "j < n" by simp
    then have "take 1 (drop j (remaining st)) \<noteq> ''/''"
      using slash_after_word[of j "remaining st"] by (auto simp: n_def)
    then show "m (Lit CHR ''/'') (adv j st) = []" by (simp add: m_lit_slash)
  qed
  show ?thesis
  proof (cases "1 \<le> n")
    case False
    then have "takeWhile segchar (remaining st) = []"
      by (cases "takeWhile segchar (remaining st)") (auto simp: n_def)
    then show ?thesis by simp
  next
    case True
    then have ne: "takeWhile segchar (remaining st) \<noteq> []" by (auto simp: n_def)
    have "concat (map (\<lambda>j. m (Lit CHR ''/'') (adv j st)) (rev [1..<Suc n])) = m (Lit CHR ''/'') (adv n st)"
      using greedy_head[OF True, of "\<lambda>j. m (Lit CHR ''/'') (adv j st)"] concat_all_nil[OF inner] by simp
    then show ?thesis using ne by (simp add: n_def[symmetric] m_lit_slash del: upt_Suc) (simp add: n_def drop_word)
  qed
qed

lemma m_single_piece:
  "m (single_piece k) st =
     (if takeWhile segchar (remaining st) \<noteq> [] \<and> take 1 (dropWhile segchar (remaining st)) = ''/''
      then [capset k (takeWhile segchar (remaining st) @ ''/'')
              (adv (Suc (length (takeWhile segchar (remaining st)))) st)] else [])"
proof -
  have "m (single_piece k) st = map (\<lambda>s. capset k (consumed st s) s)
          (concat (map (\<lambda>j. m (Lit CHR ''/'') (adv j st)) (rev [1..<Suc (length (takeWhile segchar (remaining st)))])))"
    by (simp add: single_piece_def m_group m_word_then del: upt_Suc m.simps)
       (simp add: m.simps(6) m.simps(1) del: upt_Suc)
  also have "\<dots> = (if takeWhile segchar (remaining st) \<noteq> [] \<and> take 1 (dropWhile segchar (remaining st)) = ''/''
      then [capset k (consumed st (adv (Suc (length (takeWhile segchar (remaining st)))) st))
              (adv (Suc (length (takeWhile segchar (remaining st)))) st)] else [])"
    by (simp only: word_slash) simp
  also have "\<dots> = (if takeWhile segchar (remaining st) \<noteq> [] \<and> take 1 (dropWhile segchar (remaining st)) = ''/''
      then [capset k (takeWhile segchar (remaining st) @ ''/'')
              (adv (Suc (length (takeWhile segchar (remaining st)))) st)] else [])"
  proof (cases "take 1 (dropWhile segchar (remaining st)) = ''/''")
    case False then show ?thesis by simp
  next
    case True
    then obtain r' where r': "dropWhile segchar (remaining st) = CHR ''/'' # r'"
      by (cases "dropWhile segchar (remaining st)") auto
    have "remaining st = takeWhile segchar (remaining st) @ CHR ''/'' # r'"
      using r' by (metis takeWhile_dropWhile_id)
    then have "take (Suc (length (takeWhile segchar (remaining st)))) (remaining st) = takeWhile segchar (remaining st) @ ''/''"
      by (metis append.assoc append_Cons append_Nil append_eq_conv_conj length_append_singleton)
    moreover have "Suc (length (takeWhile segchar (remaining st))) \<le> length (remaining st)"
      using True slash_lt[of "length (takeWhile segchar (remaining st))" "remaining st"] by (simp add: drop_word)
    ultimately show ?thesis by (simp add: consumed_def)
  qed
  finally show ?thesis .
qed

lemma concat_map_single: "concat (map (\<lambda>j. [g j]) js) = map g js"
  by (induction js) auto

lemma word_opt:
  "concat (map (\<lambda>j. m (Opt (Lit CHR ''/'')) (adv j st)) (rev [1..<Suc (length (takeWhile segchar (remaining st)))]))
   = map (\<lambda>j. adv j st)
       ((if takeWhile segchar (remaining st) \<noteq> [] \<and> take 1 (dropWhile segchar (remaining st)) = ''/''
         then [Suc (length (takeWhile segchar (remaining st)))] else [])
        @ rev [1..<Suc (length (takeWhile segchar (remaining st)))])"
proof -
  define n where "n = length (takeWhile segchar (remaining st))"
  define f where "f = (\<lambda>j. m (Opt (Lit CHR ''/'')) (adv j st))"
  have inner: "map f (rev [1..<n]) = map (\<lambda>j. [adv j st]) (rev [1..<n])"
  proof (rule map_cong[OF refl])
    fix j assume "j \<in> set (rev [1..<n])"
    then have "j < n" by simp
    then have "take 1 (drop j (remaining st)) \<noteq> ''/''"
      using slash_after_word[of j "remaining st"] by (auto simp: n_def)
    then show "f j = [adv j st]" by (simp add: m_opt_slash' f_def)
  qed
  show ?thesis
  proof (cases "1 \<le> n")
    case False
    then have "takeWhile segchar (remaining st) = []"
      by (cases "takeWhile segchar (remaining st)") (auto simp: n_def)
    then show ?thesis by simp
  next
    case True
    then have ne: "takeWhile segchar (remaining st) \<noteq> []" by (auto simp: n_def)
    have "concat (map f (rev [1..<n])) = map (\<lambda>j. adv j st) (rev [1..<n])"
      unfolding inner by (rule concat_map_single)
    then have "concat (map f (rev [1..<Suc n])) = f n @ map (\<lambda>j. adv j st) (rev [1..<n])"
      using greedy_head[OF True, of f] by (simp del: upt_Suc)
    moreover have "f n = (if take 1 (dropWhile segchar (remaining st)) = ''/'' then [adv (Suc n) st, adv n st] else [adv n st])"
      by (simp add: f_def m_opt_slash' n_def drop_word)
    ultimately have "concat (map f (rev [1..<Suc n])) =
        map (\<lambda>j. adv j st) ((if take 1 (dropWhile segchar (remaining st)) = ''/'' then [Suc n] else []) @ rev [1..<Suc n])"
      using True by simp
    then show ?thesis using ne by (simp add: n_def f_def del: upt_Suc)
  qed
qed

lemma consumed_adv: "j \<le> length (remaining st) \<Longrightarrow> consumed st (adv j st) = take j (remaining st)"
  by (simp add: consumed_def)

definition sl_indices :: "string \<Rightarrow> nat list" where
  "sl_indices s =
     (if takeWhile segchar s \<noteq> [] \<and> take 1 (dropWhile segchar s) = ''/''
      then [Suc (length (takeWhile segchar s))] else [])
     @ rev [1..<Suc (length (takeWhile segchar s))]"

lemma sl_indices_le: "j \<in> set (sl_indices s) \<Longrightarrow> j \<le> length s"
  using slash_lt[of "length (takeWhile segchar s)" s] word_len_le[of s]
  by (auto simp: sl_indices_def drop_word split: if_splits)

lemma m_single_last:
  "m (single_last k) st =
     map (\<lambda>j. capset k (take j (remaining st)) (adv j st)) (sl_indices (remaining st))"
proof -
  have "m (single_last k) st = map (\<lambda>s. capset k (consumed st s) s)
          (concat (map (\<lambda>j. m (Opt (Lit CHR ''/'')) (adv j st)) (rev [1..<Suc (length (takeWhile segchar (remaining st)))])))"
    by (simp add: single_last_def m_group m_word_then del: upt_Suc m.simps)
       (simp add: m.simps(6) m.simps(1) del: upt_Suc)
  also have "\<dots> = map (\<lambda>s. capset k (consumed st s) s) (map (\<lambda>j. adv j st) (sl_indices (remaining st)))"
    by (simp only: word_opt sl_indices_def)
  also have "\<dots> = map (\<lambda>j. capset k (take j (remaining st)) (adv j st)) (sl_indices (remaining st))"
    using sl_indices_le[of _ "remaining st"] by (simp add: consumed_adv)
  finally show ?thesis .
qed

lemma finst_eq:
  "endIndex s = endIndex st + length (remaining st) \<Longrightarrow> remaining s = [] \<Longrightarrow> s = finst st (captures s)"
  by (simp add: finst_def)

lemma first_filter_hd: "P x \<Longrightarrow> first (filter P (x # xs)) = Some x"
  by simp

lemma filter_none: "\<forall>x\<in>set xs. \<not> P x \<Longrightarrow> filter P xs = []"
  by (induction xs) auto

lemma hd_dropWhile_not: "dropWhile segchar s = c # r' \<Longrightarrow> \<not> segchar c"
  by (metis hd_dropWhile list.sel(1) list.distinct(1))

lemma single_last_end:
  "first (m (seq_of [single_last k, AEnd]) st) =
     (if takeWhile segchar (remaining st) \<noteq> [] \<and>
         (dropWhile segchar (remaining st) = [] \<or> dropWhile segchar (remaining st) = ''/'')
      then Some (finst st ((captures st)(k \<mapsto> remaining st))) else None)"
proof -
  define s where "s = remaining st"
  define w where "w = takeWhile segchar s"
  define r where "r = dropWhile segchar s"
  define n where "n = length w"
  define g where "g = (\<lambda>j. capset k (take j s) (adv j st))"
  have wr: "s = w @ r" by (simp add: w_def r_def)
  have eq: "m (seq_of [single_last k, AEnd]) st = filter (\<lambda>x. remaining x = []) (map g (sl_indices s))"
    using m_then_end[of "[single_last k]" st] by (simp add: m_single_last s_def g_def del: seq_of.simps)
  have gfin: "g (length s) = finst st ((captures st)(k \<mapsto> s))"
    by (simp add: g_def finst_def capset_def adv_def s_def)
  have rem_g: "remaining (g j) = [] \<longleftrightarrow> length s \<le> j" for j
    by (simp add: g_def s_def)
  consider (A) "w = []" | (B) "w \<noteq> []" "r = []" | (C) "w \<noteq> []" "r = ''/''"
    | (D) "w \<noteq> []" "r \<noteq> []" "r \<noteq> ''/''" by blast
  then show ?thesis
  proof cases
    case A
    then have "sl_indices s = []" by (simp add: sl_indices_def w_def)
    then show ?thesis using A eq by (simp add: w_def s_def)
  next
    case B
    then have ls: "length s = n" using wr by (simp add: n_def)
    have n1: "1 \<le> n" using B by (cases w) (auto simp: n_def)
    have "sl_indices s = n # rev [1..<n]" using B n1 by (simp add: sl_indices_def w_def[symmetric] r_def[symmetric] n_def[symmetric])
    then have "first (m (seq_of [single_last k, AEnd]) st) = Some (g n)"
      using eq rem_g[of n] ls by (simp del: seq_of.simps)
    then show ?thesis using B gfin ls by (simp add: w_def[symmetric] r_def[symmetric] s_def[symmetric])
  next
    case C
    then have ls: "length s = Suc n" using wr by (simp add: n_def)
    have "sl_indices s = Suc n # rev [1..<Suc n]" using C by (simp add: sl_indices_def w_def[symmetric] r_def[symmetric] n_def[symmetric])
    then have "first (m (seq_of [single_last k, AEnd]) st) = Some (g (Suc n))"
      using eq rem_g[of "Suc n"] ls by (simp del: seq_of.simps upt_Suc)
    then show ?thesis using C gfin ls by (simp add: w_def[symmetric] r_def[symmetric] s_def[symmetric])
  next
    case D
    have "\<forall>j\<in>set (sl_indices s). j < length s"
    proof
      fix j assume j: "j \<in> set (sl_indices s)"
      show "j < length s"
      proof (cases "j = Suc n")
        case True
        then have "take 1 r = ''/''" using j by (auto simp: sl_indices_def w_def[symmetric] r_def[symmetric] n_def[symmetric] split: if_splits)
        then obtain r' where "r = CHR ''/'' # r'" by (cases r) auto
        then have "r' \<noteq> []" using D by auto
        then show ?thesis using wr \<open>r = CHR ''/'' # r'\<close> True by (simp add: n_def)
      next
        case False
        then have "j \<le> n" using j by (auto simp: sl_indices_def w_def[symmetric] r_def[symmetric] n_def[symmetric] split: if_splits)
        then show ?thesis using wr D by (cases r) (auto simp: n_def)
      qed
    qed
    then have "filter (\<lambda>x. remaining x = []) (map g (sl_indices s)) = []"
      by (intro filter_none) (auto simp: rem_g)
    then show ?thesis using D eq by (simp add: w_def[symmetric] r_def[symmetric] s_def[symmetric] del: seq_of.simps)
  qed
qed

subsection \<open>A single wildcard before the final multi wildcard\<close>


lemma first_concat_Cons:
  "first (concat (map K (x # xs))) = (case first (K x) of Some y \<Rightarrow> Some y | None \<Rightarrow> first (concat (map K xs)))"
  by (simp add: first_append)

lemma wellsep_after_word:
  assumes "j \<le> length (takeWhile segchar s)" "wellsep b (drop j s)"
  shows "dropWhile segchar s = [] \<or>
         (take 1 (dropWhile segchar s) = ''/'' \<and> wellsep False (tl (dropWhile segchar s)))"
proof -
  define w where "w = takeWhile segchar s"
  define r where "r = dropWhile segchar s"
  have wr: "s = w @ r" by (simp add: w_def r_def)
  have jw: "j \<le> length w" using assms(1) by (simp add: w_def)
  have "drop j (w @ r) = drop j w @ r" using jw by simp
  then have d: "drop j s = drop j w @ r" using wr by simp
  have lu: "list_all segchar (drop j w)"
    by (metis w_def segchar_takeWhile list_all_iff in_set_dropD)
  have ws: "\<exists>b'. wellsep b' r"
  proof (cases "drop j w = []")
    case True then show ?thesis using assms(2) d by auto
  next
    case False
    from wellsep_word_append[OF lu False, of b r] assms(2) d show ?thesis by auto
  qed
  show ?thesis
  proof (cases r)
    case Nil then show ?thesis by (simp add: r_def)
  next
    case (Cons c r')
    then have "\<not> segchar c" using hd_dropWhile_not[of s c r'] by (simp add: r_def)
    then show ?thesis using ws Cons by (auto simp: r_def[symmetric] split: if_splits)
  qed
qed

lemma single_last_multi:
  "first (m (seq_of [single_last k, multi_last k', AEnd]) st) =
     (if takeWhile segchar (remaining st) = [] then None
      else if dropWhile segchar (remaining st) = []
      then Some (finst st ((captures st)(k \<mapsto> takeWhile segchar (remaining st), k' \<mapsto> [])))
      else if take 1 (dropWhile segchar (remaining st)) = ''/'' \<and> wellsep False (tl (dropWhile segchar (remaining st)))
      then Some (finst st ((captures st)(k \<mapsto> takeWhile segchar (remaining st) @ ''/'',
                                         k' \<mapsto> tl (dropWhile segchar (remaining st)))))
      else None)"
proof -
  define s where "s = remaining st"
  define w where "w = takeWhile segchar s"
  define r where "r = dropWhile segchar s"
  define n where "n = length w"
  define g where "g = (\<lambda>j. capset k (take j s) (adv j st))"
  define K where "K = m (seq_of [multi_last k', AEnd])"
  have wr: "s = w @ r" by (simp add: w_def r_def)
  have eq: "m (seq_of [single_last k, multi_last k', AEnd]) st = concat (map K (map g (sl_indices s)))"
    using m_seq_append[of "[single_last k]" "[multi_last k', AEnd]" st]
    by (simp add: m_single_last s_def g_def K_def del: seq_of.simps)
  have Kg: "first (K (g j)) = (if wellsep False (drop j s) then
              Some (finst (g j) ((captures st)(k \<mapsto> take j s, k' \<mapsto> drop j s))) else None)" for j
    unfolding K_def multi_tail by (simp add: g_def s_def)
  have fing: "j \<le> length s \<Longrightarrow> finst (g j) c = finst st c" for j c
    unfolding g_def s_def by (rule finst_adv)
  have goal: "?thesis \<longleftrightarrow> first (m (seq_of [single_last k, multi_last k', AEnd]) st) =
     (if w = [] then None
      else if r = [] then Some (finst st ((captures st)(k \<mapsto> w, k' \<mapsto> [])))
      else if take 1 r = ''/'' \<and> wellsep False (tl r)
      then Some (finst st ((captures st)(k \<mapsto> w @ ''/'', k' \<mapsto> tl r)))
      else None)"
    by (simp only: w_def r_def s_def)
  consider (A) "w = []" | (B) "w \<noteq> []" "r = []"
    | (C) "w \<noteq> []" "r \<noteq> []" "take 1 r = ''/''" "wellsep False (tl r)"
    | (D) "w \<noteq> []" "r \<noteq> []" "\<not> (take 1 r = ''/'' \<and> wellsep False (tl r))" by blast
  then show ?thesis
  proof cases
    case A
    then have "sl_indices s = []" by (simp add: sl_indices_def w_def)
    then show ?thesis unfolding goal using A eq by (simp del: seq_of.simps)
  next
    case B
    then have ls: "length s = n" "take n s = w" "drop n s = []" using wr by (simp_all add: n_def)
    have n1: "1 \<le> n" using B by (cases w) (auto simp: n_def)
    have "sl_indices s = n # rev [1..<n]"
      using B n1 by (simp add: sl_indices_def w_def[symmetric] r_def[symmetric] n_def[symmetric])
    then have "first (m (seq_of [single_last k, multi_last k', AEnd]) st) =
        Some (finst (g n) ((captures st)(k \<mapsto> take n s, k' \<mapsto> drop n s)))"
      using eq Kg[of n] ls by (simp add: first_concat_Cons first_append del: seq_of.simps)
    then show ?thesis unfolding goal using B ls fing[of n]
      by (simp del: seq_of.simps)
  next
    case C
    then obtain r' where r': "r = CHR ''/'' # r'" by (cases r) auto
    have ls: "Suc n \<le> length s" "take (Suc n) s = w @ ''/''" "drop (Suc n) s = r'"
      using wr r' by (simp_all add: n_def)
    have "sl_indices s = Suc n # rev [1..<Suc n]"
      using C by (simp add: sl_indices_def w_def[symmetric] r_def[symmetric] n_def[symmetric])
    then have "first (m (seq_of [single_last k, multi_last k', AEnd]) st) =
        Some (finst (g (Suc n)) ((captures st)(k \<mapsto> take (Suc n) s, k' \<mapsto> drop (Suc n) s)))"
      using eq Kg[of "Suc n"] ls C r' by (simp add: first_concat_Cons first_append del: seq_of.simps upt_Suc)
    then show ?thesis unfolding goal using C ls r' fing[of "Suc n"]
      by (simp del: seq_of.simps)
  next
    case D
    have "\<forall>x\<in>set (map g (sl_indices s)). K x = []"
    proof
      fix x assume "x \<in> set (map g (sl_indices s))"
      then obtain j where j: "j \<in> set (sl_indices s)" "x = g j" by auto
      have "\<not> wellsep False (drop j s)"
      proof (cases "j = Suc n")
        case True
        then have t: "take 1 r = ''/''" using j
          by (auto simp: sl_indices_def w_def[symmetric] r_def[symmetric] n_def[symmetric] split: if_splits)
        then obtain r' where r': "r = CHR ''/'' # r'" by (cases r) auto
        then have "drop j s = tl r" using wr True by (simp add: n_def)
        then show ?thesis using D t by simp
      next
        case False
        then have "j \<le> length (takeWhile segchar s)" using j
          by (auto simp: sl_indices_def w_def[symmetric] r_def[symmetric] n_def[symmetric] split: if_splits)
        from wellsep_after_word[OF this, of False] D show ?thesis by (auto simp: r_def)
      qed
      then show "K x = []" using Kg[of j] j(2) by simp
    qed
    then have "concat (map K (map g (sl_indices s))) = []" by (rule concat_all_nil)
    then show ?thesis unfolding goal using D eq by (auto simp del: seq_of.simps)
  qed
qed

subsection \<open>The fragments of a raw segment\<close>


lemma m_raw_piece:
  "m (seq_of ((map Lit p @ [Lit CHR ''/'']) @ R)) st =
     (if prefix (p @ ''/'') (remaining st) then m (seq_of R) (adv (Suc (length p)) st) else [])"
proof -
  have "map Lit p @ [Lit CHR ''/''] = map Lit (p @ ''/'')" by simp
  then show ?thesis using m_seq_append[of "map Lit (p @ ''/'')" R st] m_lits[of "p @ ''/''" st]
    by (simp del: seq_of.simps map_append)
qed

lemma m_raw_last:
  "m (seq_of (map Lit p @ [Opt (Lit CHR ''/'')])) st =
     (if prefix p (remaining st)
      then (if take 1 (drop (length p) (remaining st)) = ''/''
            then [adv (Suc (length p)) st, adv (length p) st] else [adv (length p) st])
      else [])"
  using m_seq_append[of "map Lit p" "[Opt (Lit CHR ''/'')]" st]
  by (simp add: m_lits m_opt_slash' del: seq_of.simps) 

lemma finst_simps [simp]:
  "endIndex (finst st c) = endIndex st + length (remaining st)"
  "remaining (finst st c) = []"
  "captures (finst st c) = c"
  by (simp_all add: finst_def)

lemma raw_last_end:
  "first (m (seq_of ((map Lit p @ [Opt (Lit CHR ''/'')]) @ [AEnd])) st) =
     (if remaining st = p \<or> remaining st = p @ ''/'' then Some (finst st (captures st)) else None)"
proof -
  define s where "s = remaining st"
  have eq: "m (seq_of ((map Lit p @ [Opt (Lit CHR ''/'')]) @ [AEnd])) st
        = filter (\<lambda>x. remaining x = []) (m (seq_of (map Lit p @ [Opt (Lit CHR ''/'')])) st)"
    by (rule m_then_end)
  show ?thesis
  proof (cases "prefix p s")
    case False
    then have "s \<noteq> p" "s \<noteq> p @ ''/''" by auto
    then show ?thesis using False unfolding eq m_raw_last by (simp add: s_def)
  next
    case True
    then obtain r where r: "s = p @ r" by (auto simp: prefix_def)
    have a: "adv (length p) st = finst st (captures st) \<longleftrightarrow> True" if "r = []"
      using that r by (simp add: finst_def adv_def s_def)
    have b: "adv (Suc (length p)) st = finst st (captures st)" if "r = ''/''"
      using that r by (simp add: finst_def adv_def s_def)
    show ?thesis
    proof (cases r)
      case Nil
      then show ?thesis using True r a unfolding eq m_raw_last by (simp add: s_def[symmetric])
    next
      case (Cons c r')
      then show ?thesis using True r b unfolding eq m_raw_last
        by (cases r') (auto simp: s_def[symmetric])
    qed
  qed
qed

lemma raw_last_multi:
  "first (m (seq_of ((map Lit p @ [Opt (Lit CHR ''/'')]) @ [multi_last k', AEnd])) st) =
     (if prefix p (remaining st)
      then (if take 1 (drop (length p) (remaining st)) = ''/''
            then (if wellsep False (drop (Suc (length p)) (remaining st))
                  then Some (finst st ((captures st)(k' \<mapsto> drop (Suc (length p)) (remaining st)))) else None)
            else (if wellsep False (drop (length p) (remaining st))
                  then Some (finst st ((captures st)(k' \<mapsto> drop (length p) (remaining st)))) else None))
      else None)"
proof -
  define s where "s = remaining st"
  define K where "K = m (seq_of [multi_last k', AEnd])"
  have eq: "m (seq_of ((map Lit p @ [Opt (Lit CHR ''/'')]) @ [multi_last k', AEnd])) st
        = concat (map K (m (seq_of (map Lit p @ [Opt (Lit CHR ''/'')])) st))"
    unfolding K_def by (rule m_seq_append)
  have Kj: "j \<le> length s \<Longrightarrow> first (K (adv j st)) = (if wellsep False (drop j s) then
              Some (finst st ((captures st)(k' \<mapsto> drop j s))) else None)" for j
    unfolding K_def multi_tail by (simp add: s_def finst_adv')
  show ?thesis
  proof (cases "prefix p s")
    case False
    then show ?thesis unfolding eq m_raw_last by (simp add: s_def)
  next
    case True
    then obtain r where r: "s = p @ r" by (auto simp: prefix_def)
    show ?thesis
    proof (cases "take 1 (drop (length p) s) = ''/''")
      case False
      then show ?thesis using True Kj[of "length p"] r unfolding eq m_raw_last
        by (simp add: s_def[symmetric] first_concat_Cons first_append)
    next
      case T: True
      then obtain r' where r': "r = CHR ''/'' # r'" using r by (cases r) auto
      have nw: "\<not> wellsep False (drop (length p) s)" using r r' by simp
      show ?thesis using True T Kj[of "length p"] Kj[of "Suc (length p)"] r r' nw unfolding eq m_raw_last
        by (simp add: s_def[symmetric] first_concat_Cons first_append)
    qed
  qed
qed

section \<open>What a compiled pattern matches\<close>

text \<open>
  \<open>dm\<close> reads a topic directly against the pattern segments and returns the text of the
  capture groups, or \<open>None\<close>. It is proved below to be what \<open>exec\<close> computes on the parsed
  regular expression of the pattern: \<open>lastm\<close> is the final fragment, \<open>bmm\<close> a fragment
  directly before the final multi wildcard together with that wildcard, and \<open>piecem\<close> any
  earlier fragment followed by the rest.
\<close>


declare exec_from.simps [simp del]

definition lastm :: "string \<Rightarrow> string \<Rightarrow> string list option" where
  "lastm p s =
     (if isSingle p then
        (if takeWhile segchar s \<noteq> [] \<and> (dropWhile segchar s = [] \<or> dropWhile segchar s = ''/'')
         then Some [s] else None)
      else if isMulti p then (if wellsep False s then Some [s] else None)
      else (if s = p \<or> s = p @ ''/'' then Some [] else None))"

definition bmm :: "string \<Rightarrow> string \<Rightarrow> string list option" where
  "bmm p s =
     (if isSingle p then
        (if takeWhile segchar s = [] then None
         else if dropWhile segchar s = [] then Some [takeWhile segchar s, []]
         else if take 1 (dropWhile segchar s) = ''/'' \<and> wellsep False (tl (dropWhile segchar s))
         then Some [takeWhile segchar s @ ''/'', tl (dropWhile segchar s)]
         else None)
      else
        (if prefix p s then
           (if take 1 (drop (length p) s) = ''/''
            then (if wellsep False (drop (Suc (length p)) s) then Some [drop (Suc (length p)) s] else None)
            else (if wellsep False (drop (length p) s) then Some [drop (length p) s] else None))
         else None))"

definition piecem :: "string \<Rightarrow> string \<Rightarrow> (string \<Rightarrow> string list option) \<Rightarrow> string list option" where
  "piecem p s K =
     (if isSingle p then
        (if takeWhile segchar s \<noteq> [] \<and> take 1 (dropWhile segchar s) = ''/''
         then map_option ((#) (takeWhile segchar s @ ''/'')) (K (drop (Suc (length (takeWhile segchar s))) s))
         else None)
      else (if prefix (p @ ''/'') s then K (drop (Suc (length p)) s) else None))"

fun dm :: "string list \<Rightarrow> string \<Rightarrow> string list option" where
  "dm [] s = (if s = [] then Some [] else None)"
| "dm [p] s = lastm p s"
| "dm [p, q] s = (if isMulti q then bmm p s else piecem p s (lastm q))"
| "dm (p # q # r # ps) s = piecem p s (dm (q # r # ps))"

fun upd :: "nat \<Rightarrow> string list \<Rightarrow> (nat \<Rightarrow> string option) \<Rightarrow> (nat \<Rightarrow> string option)" where
  "upd k [] c = c"
| "upd k (x # xs) c = upd (Suc k) xs (c(Suc k \<mapsto> x))"

lemma run_last:
  "first (m (seq_of (last_ast k p @ [AEnd])) st)
   = map_option (\<lambda>cs. finst st (upd k cs (captures st))) (lastm p (remaining st))"
proof -
  consider "isSingle p" | "\<not> isSingle p" "isMulti p" | "\<not> isSingle p" "\<not> isMulti p" by blast
  then show ?thesis
  proof cases
    case 1
    then show ?thesis using single_last_end[of "Suc k" st]
      by (simp add: last_ast_def lastm_def del: seq_of.simps)
  next
    case 2
    then show ?thesis using multi_tail[of "Suc k" st]
      by (simp add: last_ast_def lastm_def del: seq_of.simps)
  next
    case 3
    then show ?thesis using raw_last_end[of p st]
      by (simp add: last_ast_def lastm_def del: seq_of.simps)
  qed
qed

lemma run_before_multi:
  assumes "\<not> isMulti p" "isMulti q"
  shows "first (m (seq_of ((last_ast k p @ last_ast (k + gcount p) q) @ [AEnd])) st)
   = map_option (\<lambda>cs. finst st (upd k cs (captures st))) (bmm p (remaining st))"
proof -
  have nq: "\<not> isSingle q" using assms(2) isSingle_not_multi by blast
  have lq: "last_ast k' q = [multi_last (Suc k')]" for k'
    using nq assms(2) by (simp add: last_ast_def)
  show ?thesis
  proof (cases "isSingle p")
    case True
    have la: "(last_ast k p @ last_ast (k + gcount p) q) @ [AEnd]
              = [single_last (Suc k), multi_last (Suc (Suc k)), AEnd]"
      unfolding lq using True by (simp add: last_ast_def gcount_def isRaw_def)
    show ?thesis unfolding la using True single_last_multi[of "Suc k" "Suc (Suc k)" st]
      by (simp add: bmm_def del: seq_of.simps)
  next
    case False
    have la: "(last_ast k p @ last_ast (k + gcount p) q) @ [AEnd]
              = (map Lit p @ [Opt (Lit CHR ''/'')]) @ [multi_last (Suc k), AEnd]"
      unfolding lq using False assms(1) by (simp add: last_ast_def gcount_def isRaw_def)
    show ?thesis unfolding la using False raw_last_multi[of p "Suc k" st]
      by (simp add: bmm_def del: seq_of.simps)
  qed
qed

lemma run_piece:
  assumes "\<not> isMulti p"
    and "\<And>s1. first (m (seq_of R) s1)
            = map_option (\<lambda>cs. finst s1 (upd (k + gcount p) cs (captures s1))) (K (remaining s1))"
  shows "first (m (seq_of (piece_ast k p @ R)) st)
         = map_option (\<lambda>cs. finst st (upd k cs (captures st))) (piecem p (remaining st) K)"
proof (cases "isSingle p")
  case True
  define w where "w = takeWhile segchar (remaining st)"
  define s1 where "s1 = capset (Suc k) (w @ ''/'') (adv (Suc (length w)) st)"
  have eq: "m (seq_of (piece_ast k p @ R)) st =
     (if w \<noteq> [] \<and> take 1 (dropWhile segchar (remaining st)) = ''/'' then m (seq_of R) s1 else [])"
    using True m_seq_append[of "[single_piece (Suc k)]" R st]
    by (simp add: piece_ast_def m_single_piece w_def s1_def del: seq_of.simps)
  show ?thesis
  proof (cases "w \<noteq> [] \<and> take 1 (dropWhile segchar (remaining st)) = ''/''")
    case False
    then show ?thesis using True eq by (auto simp: piecem_def w_def simp del: seq_of.simps)
  next
    case T: True
    then have le: "Suc (length w) \<le> length (remaining st)"
      using slash_lt[of "length w" "remaining st"] by (simp add: w_def drop_word)
    have f: "finst s1 c = finst st c" for c unfolding s1_def using le by (rule finst_adv)
    have g: "gcount p = 1" using True by (simp add: gcount_def isRaw_def)
    have "first (m (seq_of R) s1) = map_option (\<lambda>cs. finst st (upd k ((w @ ''/'') # cs) (captures st)))
            (K (drop (Suc (length w)) (remaining st)))"
      using assms(2)[of s1] by (simp add: f g) (simp add: s1_def)
    then show ?thesis using True T eq
      by (simp add: piecem_def w_def[symmetric] option.map_comp comp_def del: seq_of.simps)
  qed
next
  case False
  then have g: "gcount p = 0" using assms(1) by (simp add: gcount_def isRaw_def)
  have eq: "m (seq_of (piece_ast k p @ R)) st =
     (if prefix (p @ ''/'') (remaining st) then m (seq_of R) (adv (Suc (length p)) st) else [])"
    using False assms(1) m_raw_piece[of p R st] by (simp add: piece_ast_def del: seq_of.simps)
  show ?thesis
  proof (cases "prefix (p @ ''/'') (remaining st)")
    case F: False
    then show ?thesis using False eq by (simp add: piecem_def del: seq_of.simps)
  next
    case True
    then have le: "Suc (length p) \<le> length (remaining st)"
      by (metis prefix_length_le length_append_singleton)
    have "first (m (seq_of R) (adv (Suc (length p)) st)) = map_option (\<lambda>cs. finst st (upd k cs (captures st)))
            (K (drop (Suc (length p)) (remaining st)))"
      using assms(2)[of "adv (Suc (length p)) st"] by (simp add: g finst_adv'[OF le])
    then show ?thesis using False True eq by (simp add: piecem_def del: seq_of.simps)
  qed
qed

lemma multi_only_last_Cons:
  "multi_only_last (p # q # ps) \<Longrightarrow> \<not> isMulti p \<and> multi_only_last (q # ps)"
  unfolding multi_only_last_def
proof
  assume a: "\<forall>i. Suc i < length (p # q # ps) \<longrightarrow> \<not> isMulti ((p # q # ps) ! i)"
  from a[rule_format, of 0] show "\<not> isMulti p" by simp
  show "\<forall>i. Suc i < length (q # ps) \<longrightarrow> \<not> isMulti ((q # ps) ! i)"
  proof (intro allI impI)
    fix i assume "Suc i < length (q # ps)"
    then show "\<not> isMulti ((q # ps) ! i)" using a[rule_format, of "Suc i"] by simp
  qed
qed

lemma run_dm:
  "multi_only_last segs \<Longrightarrow> segs \<noteq> [] \<Longrightarrow>
   first (m (seq_of (frag_ast k segs @ [AEnd])) st)
   = map_option (\<lambda>cs. finst st (upd k cs (captures st))) (dm segs (remaining st))"
proof (induction k segs arbitrary: st rule: frag_ast.induct)
  case (1 k) then show ?case by simp
next
  case (2 k p) show ?case using run_last[of k p st] by (simp del: seq_of.simps)
next
  case (3 k p q)
  from multi_only_last_Cons[OF 3(1)] have np: "\<not> isMulti p" by simp
  show ?case
  proof (cases "isMulti q")
    case True
    then show ?thesis using run_before_multi[OF np True, of k st] by (simp del: seq_of.simps)
  next
    case False
    have "first (m (seq_of (piece_ast k p @ (last_ast (k + gcount p) q @ [AEnd]))) st)
         = map_option (\<lambda>cs. finst st (upd k cs (captures st))) (piecem p (remaining st) (lastm q))"
      by (rule run_piece[OF np]) (rule run_last)
    then show ?thesis using False by (simp del: seq_of.simps)
  qed
next
  case (4 k p q r ps)
  from multi_only_last_Cons[OF 4(2)] have np: "\<not> isMulti p" and ml: "multi_only_last (q # r # ps)" by simp_all
  have "first (m (seq_of (piece_ast k p @ (frag_ast (k + gcount p) (q # r # ps) @ [AEnd]))) st)
         = map_option (\<lambda>cs. finst st (upd k cs (captures st))) (piecem p (remaining st) (dm (q # r # ps)))"
    by (rule run_piece[OF np]) (rule 4(1)[OF ml], simp)
  then show ?case by (simp del: seq_of.simps)
qed

lemma upd_other: "j \<le> k \<Longrightarrow> upd k cs c j = c j"
  by (induction cs arbitrary: k c) auto

lemma upd_map: "map (upd k cs c) [Suc k..<Suc k + length cs] = map Some cs"
proof (induction cs arbitrary: k c)
  case Nil show ?case by simp
next
  case (Cons x xs)
  have e: "[Suc k..<Suc k + length (x # xs)] = Suc k # [Suc (Suc k)..<Suc (Suc k) + length xs]"
    by (subst upt_rec) (simp del: upt_Suc)
  have ih: "map (upd (Suc k) xs (c(Suc k \<mapsto> x))) [Suc (Suc k)..<Suc (Suc (k + length xs))] = map Some xs"
    using Cons[of "Suc k" "c(Suc k \<mapsto> x)"] by (simp del: upt_Suc fun_upd_apply)
  show ?case unfolding e by (simp add: upd_other ih del: upt_Suc)
qed

lemma lastm_length: "lastm p s = Some cs \<Longrightarrow> length cs = gcount p"
  by (auto simp: lastm_def gcount_def isRaw_def isSingle_not_multi split: if_splits)

lemma bmm_length: "\<not> isMulti p \<Longrightarrow> bmm p s = Some cs \<Longrightarrow> length cs = gcount p + 1"
  by (auto simp: bmm_def gcount_def isRaw_def split: if_splits)

lemma piecem_length:
  assumes "\<not> isMulti p" "piecem p s K = Some cs" "\<And>s' cs'. K s' = Some cs' \<Longrightarrow> length cs' = n"
  shows "length cs = gcount p + n"
  using assms by (auto simp: piecem_def gcount_def isRaw_def split: if_splits)

lemma dm_length: "multi_only_last segs \<Longrightarrow> dm segs s = Some cs \<Longrightarrow> length cs = nwild segs"
proof (induction segs s arbitrary: cs rule: dm.induct)
  case (1 s) then show ?case by (auto simp: nwild_def split: if_splits)
next
  case (2 p s) then show ?case using lastm_length[of p s cs] by (simp add: nwild_def)
next
  case (3 p q s)
  from multi_only_last_Cons[OF 3(1)] have np: "\<not> isMulti p" by simp
  show ?case
  proof (cases "isMulti q")
    case True
    then have "gcount q = 1" by (simp add: gcount_def isRaw_def)
    then show ?thesis using 3(2) True bmm_length[OF np, of s cs] by (simp add: nwild_def)
  next
    case False
    then have "piecem p s (lastm q) = Some cs" using 3(2) by simp
    from piecem_length[OF np this, of "gcount q"] lastm_length[of q] show ?thesis by (simp add: nwild_def)
  qed
next
  case (4 p q r ps s)
  from multi_only_last_Cons[OF 4(2)] have np: "\<not> isMulti p" and ml: "multi_only_last (q # r # ps)" by simp_all
  have "piecem p s (dm (q # r # ps)) = Some cs" using 4(3) by simp
  from piecem_length[OF np this, of "nwild (q # r # ps)"] 4(1)[OF ml] show ?case by (simp add: nwild_def)
qed

lemma groups_seq_of: "groups (seq_of xs) = concat (map groups xs)"
  by (induction xs) auto

lemma groups_lits [simp]: "concat (map groups (map Lit p)) = []"
  by (induction p) auto

lemma groups_piece: "length (concat (map groups (piece_ast k p))) = gcount p"
  by (auto simp: piece_ast_def gcount_def isRaw_def single_piece_def multi_piece_def cls_def isSingle_not_multi)

lemma groups_last: "length (concat (map groups (last_ast k p))) = gcount p"
  by (auto simp: last_ast_def gcount_def isRaw_def single_last_def multi_last_def cls_def isSingle_not_multi)

lemma groups_frag: "length (concat (map groups (frag_ast k segs))) = nwild segs"
  by (induction k segs rule: frag_ast.induct) (auto simp: nwild_def groups_piece groups_last)

lemma ngroups_pattern_regex: "ngroups (pattern_regex segs) = nwild segs"
  by (simp add: pattern_regex_def groups_seq_of groups_frag)

lemma exec_from_pos: "0 < i \<Longrightarrow> exec_from (Seq AStart X) i s = None"
proof (induction s arbitrary: i)
  case Nil then show ?case by (subst exec_from.simps) simp
next
  case (Cons c s)
  then show ?case by (subst exec_from.simps) simp
qed

lemma exec_dm:
  assumes "multi_only_last segs" "segs \<noteq> []"
  shows "exec (pattern_regex segs) topic = map_option (\<lambda>cs. Some topic # map Some cs) (dm segs topic)"
proof -
  define st0 where "st0 = \<lparr>endIndex = 0, remaining = topic, captures = (\<lambda>k. None)\<rparr>"
  define X where "X = seq_of (frag_ast 0 segs @ [AEnd])"
  have pr: "pattern_regex segs = Seq AStart X" by (simp add: pattern_regex_def X_def)
  have mm: "m (Seq AStart X) st0 = m X st0" by (simp add: st0_def)
  have fr: "first (m X st0) = map_option (\<lambda>cs. finst st0 (upd 0 cs (captures st0))) (dm segs topic)"
    unfolding X_def using run_dm[OF assms, of 0 st0] by (simp add: st0_def)
  show ?thesis
  proof (cases "dm segs topic")
    case None
    then have "m X st0 = []" using fr by simp
    then have "exec_from (Seq AStart X) 0 topic = None"
      using mm exec_from_pos[of "Suc 0" X]
      by (subst exec_from.simps) (auto simp: st0_def split: list.splits)
    then show ?thesis using None by (simp add: exec_def pr)
  next
    case (Some cs)
    then obtain rest where xs: "m X st0 = finst st0 (upd 0 cs (captures st0)) # rest"
      using fr by (cases "m X st0") auto
    have n: "ngroups (Seq AStart X) = length cs"
      using dm_length[OF assms(1) Some] ngroups_pattern_regex[of segs] by (simp add: pr)
    have "exec_from (Seq AStart X) 0 topic
          = Some (Some topic # map (upd 0 cs (\<lambda>k. None)) [1..<Suc (length cs)])"
      using mm xs n by (subst exec_from.simps) (simp add: st0_def del: ngroups.simps upt_Suc)
    moreover have "map (upd 0 cs (\<lambda>k. None)) [1..<Suc (length cs)] = map Some cs"
      using upd_map[of 0 cs "\<lambda>k. None"] by simp
    ultimately show ?thesis using Some by (simp add: exec_def pr)
  qed
qed

definition compiled :: "string \<Rightarrow> Pattern" where
  "compiled p = (let segs = split CHR ''/'' p; tokens = map token_of segs in
     \<lparr> pattern_p = p, topic_p = buildTopic tokens, regex_p = pattern_regex segs,
       fnParams_p = tokens, paramCount_p = buildParameterCount tokens \<rparr>)"

lemma Pattern_from_cases:
  "Pattern_from p = (if multi_only_last (split CHR ''/'' p) then Inr (compiled p) else Inl MultiNotAtEnd)"
  by (simp add: Pattern_from_def tokenize_cases parse_regexSource compiled_def Let_def)

lemma match_dm:
  assumes "Pattern_from p = Inr P"
  shows "match P topic = map_option (\<lambda>cs. Some topic # map Some cs) (dm (split CHR ''/'' p) topic)"
proof -
  have ml: "multi_only_last (split CHR ''/'' p)" and P: "P = compiled p"
    using assms by (auto simp: Pattern_from_cases split: if_splits)
  show ?thesis using exec_dm[OF ml split_nonempty, of topic]
    by (simp add: match_def P compiled_def Let_def)
qed

section \<open>Compilation, parameter count and subscribable topic\<close>


lemma multi_only_last_code:
  "multi_only_last segs = list_all (\<lambda>s. \<not> isMulti s) (butlast segs)"
proof -
  have "(\<forall>i. Suc i < length segs \<longrightarrow> \<not> isMulti (segs ! i))
        = (\<forall>i < length (butlast segs). \<not> isMulti (butlast segs ! i))"
    by (auto simp: nth_butlast)
  then show ?thesis by (simp add: multi_only_last_def list_all_length)
qed

lemma compiles:
  "list_all (\<lambda>s. \<not> isMulti s) (butlast (split CHR ''/'' p)) \<Longrightarrow> Pattern_from p = Inr (compiled p)"
  by (simp add: Pattern_from_cases multi_only_last_code)

lemma compiled_fields [simp]:
  "pattern_p (compiled p) = p"
  "fnParams_p (compiled p) = map token_of (split CHR ''/'' p)"
  "topic_p (compiled p) = buildTopic (map token_of (split CHR ''/'' p))"
  "paramCount_p (compiled p) = buildParameterCount (map token_of (split CHR ''/'' p))"
  by (simp_all add: compiled_def Let_def)

lemma type_token_of_raw: "type_t (token_of seg) = RAW \<longleftrightarrow> isRaw seg"
  by (auto simp: token_of_def processSingle_def multiToken_def processRaw_def Let_def isRaw_def)

lemma name_token_of: "name_t (token_of seg) = (if isRaw seg then None else Some (drop 1 seg))"
  by (auto simp: token_of_def processSingle_def multiToken_def processRaw_def Let_def isRaw_def)

lemma removeRaw_tokens:
  "removeRawTokens (map token_of segs) = map token_of (filter (\<lambda>s. \<not> isRaw s) segs)"
  by (induction segs) (auto simp: removeRawTokens_def type_token_of_raw)

lemma nwild_filter: "nwild segs = length (filter (\<lambda>s. \<not> isRaw s) segs)"
  by (induction segs) (auto simp: nwild_def gcount_def)

lemma forEach_ok:
  "length cs \<le> length toks \<Longrightarrow> \<exists>r. forEach_capture toks (map Some cs) ps = Inr r"
proof (induction cs arbitrary: toks ps)
  case Nil show ?case by simp
next
  case (Cons c cs)
  then obtain t ts where t: "toks = t # ts" by (cases toks) auto
  then have "length cs \<le> length ts" using Cons.prems by simp
  from Cons.IH[OF this] show ?case using t by simp
qed

lemma getParameters_match_ok:
  assumes "Pattern_from p = Inr P"
  shows "\<exists>r. getParameters P (match P topic) = Inr r"
proof -
  have ml: "multi_only_last (split CHR ''/'' p)" and P: "P = compiled p"
    using assms by (auto simp: Pattern_from_cases split: if_splits)
  show ?thesis
  proof (cases "dm (split CHR ''/'' p) topic")
    case None
    then show ?thesis using match_dm[OF assms, of topic]
      by (simp add: getParameters_def buildParameterFunction_def)
  next
    case (Some cs)
    have "length cs = length (removeRawTokens (map token_of (split CHR ''/'' p)))"
      using dm_length[OF ml Some] by (simp add: removeRaw_tokens nwild_filter)
    then have "\<exists>r. forEach_capture (removeRawTokens (map token_of (split CHR ''/'' p))) (map Some cs) (plain Map.empty) = Inr r"
      by (intro forEach_ok) simp
    then show ?thesis using match_dm[OF assms, of topic] Some
      by (simp add: getParameters_def buildParameterFunction_def P)
  qed
qed

text \<open>
  C4. Compiling a pattern fails exactly when a segment starting with \<open>#\<close> stands before the
  final segment. The failure is the error of \<open>processMulti\<close>, already returned by
  \<open>tokenize\<close>, the first step of the constructor; every other pattern compiles.
\<close>

theorem C4_compile_fails_iff_multi_not_last:
  "(if \<exists>i. Suc i < length (split CHR ''/'' p) \<and> first_is CHR ''#'' (split CHR ''/'' p ! i)
    then Pattern_from p = Inl MultiNotAtEnd \<and> tokenize p = Inl MultiNotAtEnd
    else \<exists>P. Pattern_from p = Inr P \<and> getPattern P = p)"
proof (cases "multi_only_last (split CHR ''/'' p)")
  case True
  then have "\<not> (\<exists>i. Suc i < length (split CHR ''/'' p) \<and> first_is CHR ''#'' (split CHR ''/'' p ! i))"
    by (auto simp: multi_only_last_def isMulti_def)
  then show ?thesis using True by (simp add: Pattern_from_cases getPattern_def)
next
  case False
  then have "\<exists>i. Suc i < length (split CHR ''/'' p) \<and> first_is CHR ''#'' (split CHR ''/'' p ! i)"
    by (auto simp: multi_only_last_def isMulti_def)
  then show ?thesis using False by (simp add: Pattern_from_cases tokenize_cases)
qed

theorem C4_witness:
  "Pattern_from ''#all/status'' = Inl MultiNotAtEnd \<and> (\<exists>P. Pattern_from ''status/#all'' = Inr P)"
proof -
  have a: "\<exists>i. Suc i < length (split CHR ''/'' ''#all/status'') \<and> first_is CHR ''#'' (split CHR ''/'' ''#all/status'' ! i)"
    by (rule exI[of _ 0]) (simp add: first_is_def)
  have b: "\<not> (\<exists>i. Suc i < length (split CHR ''/'' ''status/#all'') \<and> first_is CHR ''#'' (split CHR ''/'' ''status/#all'' ! i))"
    by (simp add: first_is_def)
  show ?thesis
    using C4_compile_fails_iff_multi_not_last[of "''#all/status''"]
      C4_compile_fails_iff_multi_not_last[of "''status/#all''"] a b
    by (simp only: if_True if_False) blast
qed

text \<open>
  C7. A topic that does not match is not an error. \<open>match\<close> returns either the no-match value
  or the matched topic followed by one defined capture per wildcard; \<open>getParameters\<close> of the
  no-match value is the empty object \<open>{}\<close>, and \<open>getParameters\<close> of whatever \<open>match\<close> returned
  never fails.
\<close>

theorem C7_no_match_is_not_an_error:
  assumes "Pattern_from p = Inr P"
  shows "(match P topic = None \<or> (\<exists>cs. match P topic = Some (Some topic # map Some cs)))
         \<and> getParameters P None = Inr (plain Map.empty)
         \<and> (\<exists>r. getParameters P (match P topic) = Inr r)"
proof -
  have "match P topic = None \<or> (\<exists>cs. match P topic = Some (Some topic # map Some cs))"
    using match_dm[OF assms, of topic] by (cases "dm (split CHR ''/'' p) topic") auto
  moreover have "getParameters P None = Inr (plain Map.empty)"
    by (simp add: getParameters_def buildParameterFunction_def)
  ultimately show ?thesis using getParameters_match_ok[OF assms] by blast
qed

theorem C7_witness:
  "\<exists>P. Pattern_from ''devices/+deviceId/status'' = Inr P
       \<and> getParameters P None = Inr (plain Map.empty)
       \<and> (\<exists>r. getParameters P (match P ''devices/42/43/status'') = Inr r)"
proof -
  have c: "Pattern_from ''devices/+deviceId/status'' = Inr (compiled ''devices/+deviceId/status'')"
    by (rule compiles) (simp add: isMulti_def first_is_def)
  from C7_no_match_is_not_an_error[OF c, of "''devices/42/43/status''"] c show ?thesis by blast
qed

text \<open>
  C8. A pattern without wildcard segments compiles, has parameter count 0, and
  \<open>buildParameterizedTopic\<close> of the empty mapping gives the pattern string back.
\<close>

theorem C8_no_wildcards:
  assumes "\<forall>seg \<in> set (split CHR ''/'' p). \<not> first_is CHR ''+'' seg \<and> \<not> first_is CHR ''#'' seg"
  shows "\<exists>P. Pattern_from p = Inr P \<and> getParameterCount P = 0 \<and> buildParameterizedTopic P Map.empty = p"
proof -
  have raw: "\<forall>seg \<in> set (split CHR ''/'' p). isRaw seg"
    using assms by (simp add: isRaw_def isSingle_def isMulti_def)
  have "multi_only_last (split CHR ''/'' p)"
    using raw by (auto simp: multi_only_last_def isRaw_def)
  then have c: "Pattern_from p = Inr (compiled p)" by (simp add: Pattern_from_cases)
  have "filter (\<lambda>token. type_t token \<noteq> RAW \<and> (case name_t token of None \<Rightarrow> False | Some n \<Rightarrow> length n > 0))
          (map token_of (split CHR ''/'' p)) = []"
    using raw by (auto simp: filter_empty_conv type_token_of_raw)
  then have n: "getParameterCount (compiled p) = 0"
    by (simp add: getParameterCount_def buildParameterCount_def)
  have "map (\<lambda>token.
        if first_is CHR ''+'' token then
          (case getProperty Map.empty (drop 1 token) of
             Some v \<Rightarrow> toString v
           | None \<Rightarrow> token)
        else if first_is CHR ''#'' token then
          (case getProperty Map.empty (drop 1 token) of
             Some (Value (Sequence vs)) \<Rightarrow> join CHR ''/'' vs
           | Some v \<Rightarrow> toString v
           | None \<Rightarrow> token)
        else token) (split CHR ''/'' p) = split CHR ''/'' p"
    using assms by (intro map_idI) simp
  then have "buildParameterizedTopic (compiled p) Map.empty = p"
    by (simp add: buildParameterizedTopic_def)
  with c n show ?thesis by blast
qed

theorem C8_witness:
  "\<exists>P. Pattern_from ''devices/my-device/status'' = Inr P \<and> getParameterCount P = 0
       \<and> buildParameterizedTopic P Map.empty = ''devices/my-device/status''"
proof -
  have "\<forall>seg \<in> set (split CHR ''/'' ''devices/my-device/status''). \<not> first_is CHR ''+'' seg \<and> \<not> first_is CHR ''#'' seg"
    by (simp add: first_is_def)
  from C8_no_wildcards[OF this] show ?thesis .
qed

text \<open>
  C2. The subscribable topic of the pattern \<open>a.b\<close>: \<open>buildTopic\<close> cuts the trailing slash off
  the token's \<open>piece\<close>, which holds the escaped text, so the topic is \<open>a\.b\<close> (with the
  backslash) and not the segment as written.
\<close>

theorem C2_topic_of_raw_segment_is_escaped:
  "\<exists>P. Pattern_from ''a.b'' = Inr P \<and> getTopic P = [CHR ''a'', CHR 0x5C, CHR ''.'', CHR ''b'']
       \<and> getTopic P \<noteq> ''a.b''"
proof -
  have c: "Pattern_from ''a.b'' = Inr (compiled ''a.b'')"
    by (rule compiles) (simp add: isMulti_def first_is_def)
  have "getTopic (compiled ''a.b'') = [CHR ''a'', CHR 0x5C, CHR ''.'', CHR ''b'']"
    by (simp add: getTopic_def buildTopic_def token_of_def isSingle_def isMulti_def first_is_def
        processRaw_def escapeStringRegexp_def matchOperators_def Let_def)
  with c show ?thesis by auto
qed

section \<open>Matched topics, segment by segment\<close>

text \<open>
  \<open>conf segs ts\<close> relates the segments of a pattern to the segments of a topic that matches
  it: a raw segment faces itself, a single wildcard faces a \<open>word\<close>, the final multi
  wildcard faces any number of words and possibly a last empty segment. The optional
  separator of the last fragment allows one more, empty, topic segment at the end, and
  lets a raw segment directly before the multi wildcard be followed at once by a word.
\<close>


definition word :: "string \<Rightarrow> bool" where
  "word v = (v \<noteq> [] \<and> (\<forall>c \<in> set v. c \<noteq> CHR ''/'' \<and> c \<noteq> CHR ''#'' \<and> c \<noteq> CHR ''+''))"

lemma word_segchar: "word v \<longleftrightarrow> v \<noteq> [] \<and> list_all segchar v"
  by (auto simp: word_def segchar_def list_all_iff)

lemma word_no_slash: "word v \<Longrightarrow> CHR ''/'' \<notin> set v"
  by (auto simp: word_def)

lemma word_takeWhile:
  "word x \<Longrightarrow> takeWhile segchar (x @ CHR ''/'' # y) = x \<and> dropWhile segchar (x @ CHR ''/'' # y) = CHR ''/'' # y"
  by (auto simp: word_segchar list_all_iff takeWhile_append2 dropWhile_append2 segchar_def)

lemma word_takeWhile_end: "word x \<Longrightarrow> takeWhile segchar x = x \<and> dropWhile segchar x = []"
  by (auto simp: word_segchar list_all_iff)

definition seg_ok :: "string \<Rightarrow> string \<Rightarrow> bool" where
  "seg_ok p t = (if isSingle p then word t else t = p)"

definition mtail :: "string list \<Rightarrow> bool" where
  "mtail ts = (ts \<noteq> [] \<and> list_all word (butlast ts) \<and> (word (last ts) \<or> last ts = []))"

fun conf :: "string list \<Rightarrow> string list \<Rightarrow> bool" where
  "conf [] ts = (ts = [[]])"
| "conf [p] ts =
     (if isMulti p then mtail ts
      else (length ts = 1 \<or> (length ts = 2 \<and> ts ! 1 = [])) \<and> seg_ok p (hd ts))"
| "conf [p, q] ts =
     (case ts of
        [] \<Rightarrow> False
      | t # ts' \<Rightarrow>
          if isMulti q then
            (if isSingle p then word t \<and> (ts' = [] \<or> mtail ts')
             else (t = p \<and> mtail ts') \<or> (prefix p t \<and> mtail (drop (length p) t # ts')))
          else seg_ok p t \<and> conf [q] ts')"
| "conf (p # q # r # ps) ts =
     (case ts of [] \<Rightarrow> False | t # ts' \<Rightarrow> seg_ok p t \<and> conf (q # r # ps) ts')"

lemma segchar_no_slash: "list_all segchar w \<Longrightarrow> CHR ''/'' \<notin> set w"
  by (auto simp: list_all_iff segchar_def)

lemma mtail_Cons: "word w \<Longrightarrow> mtail ts \<Longrightarrow> mtail (w # ts)"
  by (auto simp: mtail_def butlast.simps)

lemma wellsep_hd: "wellsep False (c # cs) \<Longrightarrow> segchar c"
  by (auto simp: segchar_def split: if_splits)

lemma wellsep_split: "wellsep False s \<Longrightarrow> mtail (split CHR ''/'' s)"
proof (induction "length s" arbitrary: s rule: less_induct)
  case less
  show ?case
  proof (cases s)
    case Nil then show ?thesis by (simp add: mtail_def)
  next
    case (Cons c cs)
    define w where "w = takeWhile segchar s"
    define r where "r = dropWhile segchar s"
    have wr: "s = w @ r" by (simp add: w_def r_def)
    have wne: "w \<noteq> []" using wellsep_hd less(2) Cons by (auto simp: w_def)
    have lw: "list_all segchar w" by (simp add: w_def)
    have ww: "word w" using wne lw by (simp add: word_segchar)
    have wsr: "wellsep True r" using less(2) wellsep_word_append[OF lw wne, of False r] wr by simp
    show ?thesis
    proof (cases r)
      case Nil
      then have "split CHR ''/'' s = [w]" using wr segchar_no_slash[OF lw] by (simp add: split_plain)
      then show ?thesis using ww by (simp add: mtail_def)
    next
      case (Cons d r')
      have "\<not> segchar d" using hd_dropWhile_not[of s d r'] Cons by (simp add: r_def)
      then have d: "d = CHR ''/''" and ws: "wellsep False r'" using wsr Cons by (auto split: if_splits)
      have "length r' < length s" using wr Cons by simp
      from less(1)[OF this ws] have "mtail (split CHR ''/'' r')" .
      moreover have "split CHR ''/'' s = w # split CHR ''/'' r'"
        using wr Cons d segchar_no_slash[OF lw] by (simp add: split_append)
      ultimately show ?thesis using mtail_Cons[OF ww] by simp
    qed
  qed
qed

lemma split_prepend:
  "CHR ''/'' \<notin> set p \<Longrightarrow> split CHR ''/'' (p @ r) = (p @ hd (split CHR ''/'' r)) # tl (split CHR ''/'' r)"
proof (induction p)
  case Nil
  then show ?case by (cases "split CHR ''/'' r") auto
next
  case (Cons c p)
  then show ?case by (auto split: list.splits)
qed

lemma lastm_conf:
  assumes "CHR ''/'' \<notin> set p" "lastm p s = Some cs"
  shows "conf [p] (split CHR ''/'' s)"
proof -
  consider "isSingle p" | "\<not> isSingle p" "isMulti p" | "\<not> isSingle p" "\<not> isMulti p" by blast
  then show ?thesis
  proof cases
    case 1
    define w where "w = takeWhile segchar s"
    have lw: "list_all segchar w" by (simp add: w_def)
    from 1 assms(2) have c: "w \<noteq> []" "dropWhile segchar s = [] \<or> dropWhile segchar s = ''/''"
      by (auto simp: lastm_def w_def split: if_splits)
    have ww: "word w" using c(1) lw by (simp add: word_segchar)
    have "s = w @ dropWhile segchar s" by (simp add: w_def)
    then have "s = w \<or> s = w @ ''/''" using c(2) by (metis append_Nil2)
    then have "split CHR ''/'' s = [w] \<or> split CHR ''/'' s = [w, []]"
      using segchar_no_slash[OF lw] split_plain[of "CHR ''/''" w] split_append[of "CHR ''/''" w "[]"] by auto
    then show ?thesis using 1 ww isSingle_not_multi[of p] by (auto simp: seg_ok_def)
  next
    case 2
    then show ?thesis using assms(2) wellsep_split[of s] by (auto simp: lastm_def split: if_splits)
  next
    case 3
    then have "s = p \<or> s = p @ ''/''" using assms(2) by (auto simp: lastm_def split: if_splits)
    then have "split CHR ''/'' s = [p] \<or> split CHR ''/'' s = [p, []]"
      using assms(1) split_plain[of "CHR ''/''" p] split_append[of "CHR ''/''" p "[]"] by auto
    then show ?thesis using 3 by (auto simp: seg_ok_def)
  qed
qed

lemma bmm_conf:
  assumes "CHR ''/'' \<notin> set p" "\<not> isMulti p" "isMulti q" "bmm p s = Some cs"
  shows "conf [p, q] (split CHR ''/'' s)"
proof (cases "isSingle p")
  case True
  define w where "w = takeWhile segchar s"
  define r where "r = dropWhile segchar s"
  have wr: "s = w @ r" by (simp add: w_def r_def)
  have lw: "list_all segchar w" by (simp add: w_def)
  from True assms(4) have c: "w \<noteq> []" "r = [] \<or> (take 1 r = ''/'' \<and> wellsep False (tl r))"
    by (auto simp: bmm_def w_def r_def split: if_splits)
  have ww: "word w" using c(1) lw by (simp add: word_segchar)
  from c(2) show ?thesis
  proof
    assume "r = []"
    then have "split CHR ''/'' s = [w]" using wr segchar_no_slash[OF lw] by (simp add: split_plain)
    then show ?thesis using True assms(3) ww by simp
  next
    assume a: "take 1 r = ''/'' \<and> wellsep False (tl r)"
    then obtain r' where r': "r = CHR ''/'' # r'" by (cases r) auto
    have "split CHR ''/'' s = w # split CHR ''/'' r'"
      using wr r' segchar_no_slash[OF lw] by (simp add: split_append)
    then show ?thesis using True assms(3) ww wellsep_split[of r'] a r' by simp
  qed
next
  case False
  from False assms(4) have pre: "prefix p s" by (auto simp: bmm_def split: if_splits)
  then obtain r where r: "s = p @ r" by (auto simp: prefix_def)
  show ?thesis
  proof (cases "take 1 r = ''/''")
    case True
    then obtain r' where r': "r = CHR ''/'' # r'" by (cases r) auto
    have "wellsep False r'" using False assms(4) r r' by (auto simp: bmm_def split: if_splits)
    then have "mtail (split CHR ''/'' r')" by (rule wellsep_split)
    moreover have "split CHR ''/'' s = p # split CHR ''/'' r'"
      using r r' assms(1) by (simp add: split_append)
    ultimately show ?thesis using False assms(3) by simp
  next
    case F: False
    then have "wellsep False r" using False assms(4) r by (auto simp: bmm_def split: if_splits)
    then have mt: "mtail (split CHR ''/'' r)" by (rule wellsep_split)
    have sp: "split CHR ''/'' s = (p @ hd (split CHR ''/'' r)) # tl (split CHR ''/'' r)"
      using r assms(1) by (simp add: split_prepend)
    have "hd (split CHR ''/'' r) # tl (split CHR ''/'' r) = split CHR ''/'' r"
      by (simp add: split_nonempty)
    then show ?thesis using False assms(3) mt sp by simp
  qed
qed

lemma piecem_split:
  assumes "CHR ''/'' \<notin> set p" "\<not> isMulti p" "piecem p s K = Some cs"
  shows "\<exists>t rest cs'. split CHR ''/'' s = t # split CHR ''/'' rest \<and> seg_ok p t \<and> K rest = Some cs'
            \<and> s = t @ CHR ''/'' # rest
            \<and> cs = (if isSingle p then (t @ ''/'') # cs' else cs')"
proof (cases "isSingle p")
  case True
  define w where "w = takeWhile segchar s"
  define r where "r = dropWhile segchar s"
  have wr: "s = w @ r" by (simp add: w_def r_def)
  have lw: "list_all segchar w" by (simp add: w_def)
  from True assms(3) have c: "w \<noteq> []" "take 1 r = ''/''"
    by (auto simp: piecem_def w_def r_def split: if_splits)
  then obtain r' where r': "r = CHR ''/'' # r'" by (cases r) auto
  have d: "drop (Suc (length w)) s = r'" using wr r' by simp
  from True assms(3) c obtain cs' where cs': "K r' = Some cs'" "cs = (w @ ''/'') # cs'"
    using d by (auto simp: piecem_def w_def[symmetric] r_def[symmetric])
  have "split CHR ''/'' s = w # split CHR ''/'' r'"
    using wr r' segchar_no_slash[OF lw] by (simp add: split_append)
  moreover have "seg_ok p w" using True c(1) lw by (simp add: seg_ok_def word_segchar)
  ultimately show ?thesis using cs' True wr r' by auto
next
  case False
  from False assms(3) have pre: "prefix (p @ ''/'') s" and k: "K (drop (Suc (length p)) s) = Some cs"
    by (auto simp: piecem_def split: if_splits)
  then obtain rest where rest: "s = p @ CHR ''/'' # rest" by (auto simp: prefix_def)
  have "split CHR ''/'' s = p # split CHR ''/'' rest" using rest assms(1) by (simp add: split_append)
  moreover have "seg_ok p p" using False by (simp add: seg_ok_def)
  ultimately show ?thesis using k rest False by auto
qed

lemma dm_conf:
  "multi_only_last segs \<Longrightarrow> segs \<noteq> [] \<Longrightarrow> \<forall>p\<in>set segs. CHR ''/'' \<notin> set p \<Longrightarrow>
   dm segs s = Some cs \<Longrightarrow> conf segs (split CHR ''/'' s)"
proof (induction segs s arbitrary: cs rule: dm.induct)
  case (1 s) then show ?case by simp
next
  case (2 p s) then show ?case using lastm_conf[of p s cs] by simp
next
  case (3 p q s)
  from multi_only_last_Cons[OF 3(1)] have np: "\<not> isMulti p" by simp
  show ?case
  proof (cases "isMulti q")
    case True
    then show ?thesis using bmm_conf[of p q s cs] np 3(3,4) by simp
  next
    case False
    then have "piecem p s (lastm q) = Some cs" using 3(4) by simp
    from piecem_split[OF _ np this] 3(3) obtain t rest cs' where
      x: "split CHR ''/'' s = t # split CHR ''/'' rest" "seg_ok p t" "lastm q rest = Some cs'" by auto
    from lastm_conf[OF _ x(3)] 3(3) have "conf [q] (split CHR ''/'' rest)" by simp
    then show ?thesis using False x by simp
  qed
next
  case (4 p q r ps s)
  from multi_only_last_Cons[OF 4(2)] have np: "\<not> isMulti p" and ml: "multi_only_last (q # r # ps)" by simp_all
  have "piecem p s (dm (q # r # ps)) = Some cs" using 4(5) by simp
  from piecem_split[OF _ np this] 4(4) obtain t rest cs' where
    x: "split CHR ''/'' s = t # split CHR ''/'' rest" "seg_ok p t" "dm (q # r # ps) rest = Some cs'" by auto
  have "conf (q # r # ps) (split CHR ''/'' rest)" using 4(1)[OF ml _ _ x(3)] 4(4) by simp
  then show ?case using x by simp
qed

lemma conf_single:
  "conf segs ts \<Longrightarrow> i < length segs \<Longrightarrow> isSingle (segs ! i) \<Longrightarrow> i < length ts \<and> word (ts ! i)"
proof (induction segs ts arbitrary: i rule: conf.induct)
  case (1 ts) then show ?case by simp
next
  case (2 p ts)
  then have "\<not> isMulti p" using isSingle_not_multi by auto
  then show ?case using 2 by (cases ts) (auto simp: seg_ok_def)
next
  case (3 p q ts)
  then obtain t ts' where ts: "ts = t # ts'" by (cases ts) auto
  show ?case
  proof (cases i)
    case 0
    then show ?thesis using 3(2,4) ts by (auto simp: seg_ok_def split: if_splits)
  next
    case (Suc i')
    then have i': "i' = 0" and sq: "isSingle q" using 3(3,4) by auto
    then have nq: "\<not> isMulti q" using isSingle_not_multi by auto
    have "conf [q] ts'" using 3(2) ts nq by simp
    from 3(1)[OF ts nq this, of 0] sq show ?thesis using ts Suc i' by simp
  qed
next
  case (4 p q r ps ts)
  then obtain t ts' where ts: "ts = t # ts'" by (cases ts) auto
  show ?case
  proof (cases i)
    case 0
    then show ?thesis using 4(2,4) ts by (auto simp: seg_ok_def)
  next
    case (Suc i')
    have "conf (q # r # ps) ts'" using 4(2) ts by simp
    from 4(1)[OF ts this, of i'] show ?thesis using 4(3,4) ts Suc by simp
  qed
qed

lemma conf_raw:
  "conf segs ts \<Longrightarrow> i < length segs \<Longrightarrow> isRaw (segs ! i) \<Longrightarrow>
   i < length ts \<and>
   (if Suc (Suc i) = length segs \<and> isMulti (last segs) then prefix (segs ! i) (ts ! i)
    else ts ! i = segs ! i)"
proof (induction segs ts arbitrary: i rule: conf.induct)
  case (1 ts) then show ?case by simp
next
  case (2 p ts)
  then show ?case by (cases ts) (auto simp: seg_ok_def isRaw_def)
next
  case (3 p q ts)
  then obtain t ts' where ts: "ts = t # ts'" by (cases ts) auto
  show ?case
  proof (cases i)
    case 0
    then show ?thesis using 3(2,4) ts by (auto simp: seg_ok_def isRaw_def split: if_splits)
  next
    case (Suc i')
    then have i': "i' = 0" and rq: "isRaw q" using 3(3,4) by auto
    then have nq: "\<not> isMulti q" by (simp add: isRaw_def)
    have "conf [q] ts'" using 3(2) ts nq by simp
    from 3(1)[OF ts nq this, of 0] rq show ?thesis using ts Suc i' nq by simp
  qed
next
  case (4 p q r ps ts)
  then obtain t ts' where ts: "ts = t # ts'" by (cases ts) auto
  show ?case
  proof (cases i)
    case 0
    then show ?thesis using 4(2,4) ts by (auto simp: seg_ok_def isRaw_def)
  next
    case (Suc i')
    have "conf (q # r # ps) ts'" using 4(2) ts by simp
    moreover have "i' < length (q # r # ps)" "isRaw ((q # r # ps) ! i')" using 4(3,4) Suc by simp_all
    ultimately have ih: "i' < length ts' \<and>
      (if Suc (Suc i') = length (q # r # ps) \<and> isMulti (last (q # r # ps))
       then prefix ((q # r # ps) ! i') (ts' ! i') else ts' ! i' = (q # r # ps) ! i')"
      using 4(1)[OF ts, of i'] by blast
    have e: "(Suc (Suc i) = length (p # q # r # ps) \<and> isMulti (last (p # q # r # ps)))
          = (Suc (Suc i') = length (q # r # ps) \<and> isMulti (last (q # r # ps)))"
      using Suc by simp
    have n: "(p # q # r # ps) ! i = (q # r # ps) ! i'" "ts ! i = ts' ! i'" "i < length ts = (i' < length ts')"
      using Suc ts by simp_all
    show ?thesis unfolding e n using ih .
  qed
qed

lemma conf_count:
  "conf segs ts \<Longrightarrow> \<forall>p\<in>set segs. \<not> isMulti p \<Longrightarrow> segs \<noteq> [] \<Longrightarrow>
   (length ts = length segs \<or> (length ts = Suc (length segs) \<and> last ts = []))
   \<and> list_all2 seg_ok segs (take (length segs) ts)"
proof (induction segs ts rule: conf.induct)
  case (1 ts) then show ?case by simp
next
  case (2 p ts)
  then obtain t ts' where ts: "ts = t # ts'" by (cases ts) auto
  then show ?case using 2 by (cases ts') auto
next
  case (3 p q ts)
  then obtain t ts' where ts: "ts = t # ts'" by (cases ts) auto
  have nq: "\<not> isMulti q" using 3(3) by simp
  have c: "conf [q] ts'" "seg_ok p t" using 3(2) ts nq by simp_all
  from 3(1)[OF ts nq c(1)] 3(3) have
    "(length ts' = 1 \<or> (length ts' = 2 \<and> last ts' = [])) \<and> list_all2 seg_ok [q] (take 1 ts')"
    by (simp add: numeral_2_eq_2)
  then show ?case using ts c(2) by (cases ts') auto
next
  case (4 p q r ps ts)
  then obtain t ts' where ts: "ts = t # ts'" by (cases ts) auto
  have c: "conf (q # r # ps) ts'" "seg_ok p t" using 4(2) ts by simp_all
  from 4(1)[OF ts c(1)] 4(3) have
    "(length ts' = length (q # r # ps) \<or> (length ts' = Suc (length (q # r # ps)) \<and> last ts' = []))
     \<and> list_all2 seg_ok (q # r # ps) (take (length (q # r # ps)) ts')" by simp
  then show ?case using ts c(2) by (cases ts') auto
qed

lemma split_app_sep: "split c (a @ c # b) = split c a @ split c b"
proof (induction a)
  case Nil show ?case by simp
next
  case (Cons x a)
  obtain y ys where y: "split c a = y # ys" using split_nonempty[of c a] by (cases "split c a") auto
  show ?case using Cons y by auto
qed

lemma split_single_eq: "split c e = [x] \<Longrightarrow> e = x"
  using join_split[of c e] by simp

lemma seg_ok_empty: "seg_ok p [] \<Longrightarrow> seg_ok p x \<Longrightarrow> x = []"
  by (auto simp: seg_ok_def word_def split: if_splits)

lemma shift_empty:
  "list_all2 seg_ok ps ts \<Longrightarrow> list_all2 seg_ok ps (x # butlast ts) \<Longrightarrow> ts \<noteq> [] \<Longrightarrow> last ts = []
   \<Longrightarrow> x = []"
proof (induction ts arbitrary: ps x)
  case Nil then show ?case by simp
next
  case (Cons t ts)
  from Cons.prems(1) obtain p ps' where ps: "ps = p # ps'" "seg_ok p t" "list_all2 seg_ok ps' ts"
    by (cases ps) auto
  show ?case
  proof (cases ts)
    case Nil
    then show ?thesis using Cons.prems ps seg_ok_empty[of p x] by simp
  next
    case (Cons t' ts')
    have a: "list_all2 seg_ok ps' (t # butlast ts)" "seg_ok p x"
      using Cons.prems(2) ps Cons by simp_all
    have "t = []" using Cons.IH[OF ps(3) a(1)] Cons.prems(4) Cons by simp
    then show ?thesis using seg_ok_empty[of p x] ps(2) a(2) by simp
  qed
qed

lemma conf_no_extra:
  assumes "conf segs (split CHR ''/'' t)" "\<forall>p\<in>set segs. \<not> isMulti p" "segs \<noteq> []" "e \<noteq> []"
  shows "\<not> conf segs (split CHR ''/'' (t @ CHR ''/'' # e))"
    and "\<not> conf segs (split CHR ''/'' (e @ CHR ''/'' # t))"
proof -
  define n where "n = length segs"
  define ts where "ts = split CHR ''/'' t"
  define es where "es = split CHR ''/'' e"
  have tne: "ts \<noteq> []" and ene: "es \<noteq> []" by (simp_all add: ts_def es_def)
  from conf_count[OF assms(1-3)] have ct: "length ts = n \<or> (length ts = Suc n \<and> last ts = [])"
    and ok: "list_all2 seg_ok segs (take n ts)" by (simp_all add: ts_def n_def)
  have e1: "length es = 1 \<Longrightarrow> es = [e]"
  proof -
    assume "length es = 1"
    then obtain x where x: "es = [x]" by (cases es) auto
    then show ?thesis using split_single_eq[of "CHR ''/''" e x] by (simp add: es_def)
  qed
  show "\<not> conf segs (split CHR ''/'' (t @ CHR ''/'' # e))"
  proof
    assume "conf segs (split CHR ''/'' (t @ CHR ''/'' # e))"
    then have c: "conf segs (ts @ es)" by (simp add: split_app_sep ts_def es_def)
    from conf_count[OF c assms(2,3)] have
      "length (ts @ es) = n \<or> (length (ts @ es) = Suc n \<and> last (ts @ es) = [])" by (simp add: n_def)
    then have "length es = 1 \<and> last es = []" using ct ene by (cases es) auto
    then show False using e1 assms(4) by auto
  qed
  show "\<not> conf segs (split CHR ''/'' (e @ CHR ''/'' # t))"
  proof
    assume "conf segs (split CHR ''/'' (e @ CHR ''/'' # t))"
    then have c: "conf segs (es @ ts)" by (simp add: split_app_sep ts_def es_def)
    from conf_count[OF c assms(2,3)] have
      k: "length (es @ ts) = n \<or> (length (es @ ts) = Suc n \<and> last (es @ ts) = [])"
      and ok2: "list_all2 seg_ok segs (take n (es @ ts))" by (simp_all add: n_def)
    from k ct ene have l: "length es = 1" "length ts = n" "last ts = []" using tne by (cases es; auto)+
    have es: "es = [e]" using e1 l(1) by simp
    have "take n (es @ ts) = e # butlast ts" using es l(2) tne
      by (cases n) (auto simp: butlast_conv_take)
    then have "list_all2 seg_ok segs (e # butlast ts)" using ok2 by simp
    moreover have "list_all2 seg_ok segs ts" using ok l(2) by simp
    ultimately have "e = []" using shift_empty tne l(3) by blast
    then show False using assms(4) by simp
  qed
qed

definition render :: "string \<Rightarrow> string" where
  "render seg = (if isSingle seg then ''+'' else if isMulti seg then ''#'' else escapeStringRegexp seg)"

lemma buildTopic_render: "buildTopic (map token_of segs) = join CHR ''/'' (map render segs)"
proof -
  have "(case type_t (token_of seg) of
           RAW \<Rightarrow> take (length (piece (token_of seg)) - 1) (piece (token_of seg))
         | SINGLE \<Rightarrow> ''+'' | MULTI \<Rightarrow> ''#'') = render seg" for seg
    by (auto simp: token_of_def render_def processSingle_def multiToken_def processRaw_def Let_def
        isSingle_not_multi)
  then show ?thesis by (simp add: buildTopic_def comp_def)
qed

lemma escape_no_slash: "CHR ''/'' \<notin> set seg \<Longrightarrow> CHR ''/'' \<notin> set (escapeStringRegexp seg)"
  by (induction seg) (auto simp: escapeStringRegexp_def)

lemma render_no_slash: "CHR ''/'' \<notin> set seg \<Longrightarrow> CHR ''/'' \<notin> set (render seg)"
  by (auto simp: render_def escape_no_slash)

lemma not_conf_render:
  "conf segs ts \<Longrightarrow> ts = map render segs \<Longrightarrow> multi_only_last segs \<Longrightarrow> \<exists>p\<in>set segs. \<not> isRaw p \<Longrightarrow> False"
proof (induction segs ts rule: conf.induct)
  case (1 ts) then show ?case by simp
next
  case (2 p ts)
  then show ?case
    by (auto simp: render_def isRaw_def seg_ok_def word_def mtail_def isSingle_not_multi split: if_splits)
next
  case (3 p q ts)
  have ts: "ts = render p # [render q]" using 3(3) by simp
  from multi_only_last_Cons[OF 3(4)] have nm: "\<not> isMulti p" by simp
  show ?case
  proof (cases "isMulti q")
    case True
    then have rq: "render q = ''#''" using isSingle_not_multi[of q] by (auto simp: render_def)
    show ?thesis using 3(2) ts True rq
      by (auto simp: render_def word_def mtail_def split: if_splits)
  next
    case False
    have c: "seg_ok p (render p)" "conf [q] [render q]" using 3(2) ts False by simp_all
    have "\<not> isSingle p" using c(1) by (auto simp: seg_ok_def render_def word_def)
    then have "isRaw p" using nm by (simp add: isRaw_def)
    then have "\<exists>p\<in>set [q]. \<not> isRaw p" using 3(5) by simp
    moreover have "multi_only_last [q]" by (simp add: multi_only_last_def)
    ultimately show ?thesis using 3(1)[OF ts False c(2)] by simp
  qed
next
  case (4 p q r ps ts)
  obtain ts' where ts: "ts = render p # ts'" "ts' = map render (q # r # ps)" using 4(3) by simp
  from multi_only_last_Cons[OF 4(4)] have nm: "\<not> isMulti p" and ml: "multi_only_last (q # r # ps)" by simp_all
  have c: "seg_ok p (render p)" "conf (q # r # ps) ts'" using 4(2) ts by simp_all
  have ns: "\<not> isSingle p" using c(1) by (auto simp: seg_ok_def render_def word_def)
  have "\<exists>p\<in>set (q # r # ps). \<not> isRaw p" using 4(5) ns nm by (auto simp: isRaw_def)
  then show ?case using 4(1)[OF ts(1) c(2) ts(2) ml] by simp
qed

subsection \<open>Captured values\<close>


lemma type_token_of_single: "isSingle p \<Longrightarrow> type_t (token_of p) = SINGLE"
  by (simp add: token_of_def processSingle_def)

lemma type_token_of_multi: "isMulti p \<Longrightarrow> type_t (token_of p) = MULTI"
  using isSingle_not_multi[of p] by (auto simp: token_of_def multiToken_def)

lemma single_value:
  assumes "isSingle p" "word w"
  shows "capture_value (token_of p) (w @ ''/'') = Scalar w" "capture_value (token_of p) w = Scalar w"
proof -
  have "last w \<noteq> CHR ''/''" using assms(2) by (auto simp: word_def)
  then show "capture_value (token_of p) (w @ ''/'') = Scalar w" "capture_value (token_of p) w = Scalar w"
    using assms by (simp_all add: capture_value_def type_token_of_single getLastItem_def removeLastItem_def word_def)
qed

lemma multi_value:
  assumes "isMulti p" "wellsep False c"
  shows "\<exists>xs. capture_value (token_of p) c = Sequence xs \<and> (\<forall>x\<in>set xs. x \<noteq> [])"
proof -
  define ss where "ss = split CHR ''/'' c"
  have mt: "mtail ss" using wellsep_split[OF assms(2)] by (simp add: ss_def)
  then have ne: "ss \<noteq> []" and bl: "\<forall>x\<in>set (butlast ss). x \<noteq> []" and l: "word (last ss) \<or> last ss = []"
    by (auto simp: mtail_def list_all_iff word_def)
  have rl: "removeLastItem ss = butlast ss" by (simp add: removeLastItem_def butlast_conv_take)
  show ?thesis
  proof (cases "last ss = []")
    case True
    then have "capture_value (token_of p) c = Sequence (butlast ss)"
      using assms(1) ne rl by (simp add: capture_value_def type_token_of_multi getLastItem_def ss_def Let_def)
    then show ?thesis using bl by auto
  next
    case False
    then have w: "word (last ss)" using l by simp
    have "capture_value (token_of p) c = Sequence ss"
      using assms(1) ne False by (simp add: capture_value_def type_token_of_multi getLastItem_def ss_def Let_def)
    moreover have "\<forall>x\<in>set ss. x \<noteq> []"
    proof
      fix x assume "x \<in> set ss"
      then have "x \<in> set (butlast ss) \<or> x = last ss"
        using ne by (metis append_butlast_last_id in_set_conv_decomp rotate1.simps(2) set_ConsD set_rotate1)
      then show "x \<noteq> []" using bl False by auto
    qed
    ultimately show ?thesis by auto
  qed
qed

lemma lastm_single_capture:
  assumes "isSingle p" "lastm p s = Some cs"
  shows "cs \<noteq> [] \<and> capture_value (token_of p) (cs ! 0) = Scalar (split CHR ''/'' s ! 0)"
proof -
  define w where "w = takeWhile segchar s"
  have lw: "list_all segchar w" by (simp add: w_def)
  from assms have c: "w \<noteq> []" "dropWhile segchar s = [] \<or> dropWhile segchar s = ''/''" "cs = [s]"
    by (auto simp: lastm_def w_def split: if_splits)
  have ww: "word w" using c(1) lw by (simp add: word_segchar)
  have "s = w @ dropWhile segchar s" by (simp add: w_def)
  then have "s = w \<or> s = w @ ''/''" using c(2) by (metis append_Nil2)
  then show ?thesis
  proof
    assume "s = w"
    then show ?thesis using c(3) single_value(2)[OF assms(1) ww] segchar_no_slash[OF lw]
      by (simp add: split_plain)
  next
    assume s: "s = w @ ''/''"
    have "split CHR ''/'' (w @ ''/'') = [w, []]" using segchar_no_slash[OF lw] by (simp add: split_append)
    then show ?thesis using c(3) single_value(1)[OF assms(1) ww] s by simp
  qed
qed

lemma bmm_single_capture:
  assumes "isSingle p" "bmm p s = Some cs"
  shows "cs \<noteq> [] \<and> capture_value (token_of p) (cs ! 0) = Scalar (split CHR ''/'' s ! 0)"
proof -
  define w where "w = takeWhile segchar s"
  define r where "r = dropWhile segchar s"
  have wr: "s = w @ r" by (simp add: w_def r_def)
  have lw: "list_all segchar w" by (simp add: w_def)
  from assms have c: "w \<noteq> []" "(r = [] \<and> cs = [w, []]) \<or> (take 1 r = ''/'' \<and> cs = [w @ ''/'', tl r])"
    by (auto simp: bmm_def w_def r_def split: if_splits)
  have ww: "word w" using c(1) lw by (simp add: word_segchar)
  from c(2) show ?thesis
  proof
    assume a: "r = [] \<and> cs = [w, []]"
    then have "split CHR ''/'' s = [w]" using wr segchar_no_slash[OF lw] by (simp add: split_plain)
    then show ?thesis using a single_value(2)[OF assms(1) ww] by simp
  next
    assume a: "take 1 r = ''/'' \<and> cs = [w @ ''/'', tl r]"
    then obtain r' where r': "r = CHR ''/'' # r'" by (cases r) auto
    have "split CHR ''/'' s = w # split CHR ''/'' r'"
      using wr r' segchar_no_slash[OF lw] by (simp add: split_append)
    then show ?thesis using a single_value(1)[OF assms(1) ww] by simp
  qed
qed

lemma nwild_Cons: "nwild (p # ps) = gcount p + nwild ps"
  by (simp add: nwild_def)

lemma piece_single_capture:
  assumes "CHR ''/'' \<notin> set p" "\<not> isMulti p" "piecem p s K = Some cs"
    and "i < Suc (length ps)" "isSingle ((p # ps) ! i)"
    and "\<And>rest cs' j. K rest = Some cs' \<Longrightarrow> j < length ps \<Longrightarrow> isSingle (ps ! j) \<Longrightarrow>
          nwild (take j ps) < length cs' \<and>
          capture_value (token_of (ps ! j)) (cs' ! nwild (take j ps)) = Scalar (split CHR ''/'' rest ! j)"
  shows "nwild (take i (p # ps)) < length cs \<and>
         capture_value (token_of ((p # ps) ! i)) (cs ! nwild (take i (p # ps))) = Scalar (split CHR ''/'' s ! i)"
proof -
  from piecem_split[OF assms(1-3)] obtain t rest cs' where
    x: "split CHR ''/'' s = t # split CHR ''/'' rest" "seg_ok p t" "K rest = Some cs'"
       "cs = (if isSingle p then (t @ ''/'') # cs' else cs')" by blast
  show ?thesis
  proof (cases i)
    case 0
    then have sp: "isSingle p" using assms(5) by simp
    then have "word t" using x(2) by (simp add: seg_ok_def)
    then show ?thesis using 0 sp x single_value(1)[OF sp] by (simp add: nwild_def)
  next
    case (Suc j)
    then have j: "j < length ps" "isSingle (ps ! j)" using assms(4,5) by simp_all
    from assms(6)[OF x(3) j] have ih: "nwild (take j ps) < length cs'"
      "capture_value (token_of (ps ! j)) (cs' ! nwild (take j ps)) = Scalar (split CHR ''/'' rest ! j)"
      by simp_all
    show ?thesis
    proof (cases "isSingle p")
      case True
      then have "gcount p = 1" by (simp add: gcount_def isRaw_def)
      then show ?thesis using Suc ih x True by (simp add: nwild_Cons)
    next
      case False
      then have "gcount p = 0" using assms(2) by (simp add: gcount_def isRaw_def)
      then show ?thesis using Suc ih x False by (simp add: nwild_Cons)
    qed
  qed
qed

lemma dm_single_capture:
  "multi_only_last segs \<Longrightarrow> \<forall>p\<in>set segs. CHR ''/'' \<notin> set p \<Longrightarrow> dm segs s = Some cs \<Longrightarrow>
   i < length segs \<Longrightarrow> isSingle (segs ! i) \<Longrightarrow>
   nwild (take i segs) < length cs \<and>
   capture_value (token_of (segs ! i)) (cs ! nwild (take i segs)) = Scalar (split CHR ''/'' s ! i)"
proof (induction segs s arbitrary: cs i rule: dm.induct)
  case (1 s) then show ?case by simp
next
  case (2 p s)
  then show ?case using lastm_single_capture[of p s cs] by (simp add: nwild_def)
next
  case (3 p q s)
  from multi_only_last_Cons[OF 3(1)] have np: "\<not> isMulti p" by simp
  show ?case
  proof (cases "isMulti q")
    case True
    then have "\<not> isSingle q" using isSingle_not_multi by auto
    then have i0: "i = 0" using 3(4,5) by (cases i) auto
    then show ?thesis using 3(3,5) True bmm_single_capture[of p s cs] by (simp add: nwild_def)
  next
    case False
    then have pm: "piecem p s (lastm q) = Some cs" using 3(3) by simp
    have "nwild (take i (p # [q])) < length cs \<and>
         capture_value (token_of ((p # [q]) ! i)) (cs ! nwild (take i (p # [q]))) = Scalar (split CHR ''/'' s ! i)"
    proof (rule piece_single_capture[OF _ np pm])
      show "CHR ''/'' \<notin> set p" using 3(2) by simp
      show "i < Suc (length [q])" using 3(4) by simp
      show "isSingle ((p # [q]) ! i)" using 3(5) by simp
    next
      fix rest cs' j assume a: "lastm q rest = Some cs'" "j < length [q]" "isSingle ([q] ! j)"
      then show "nwild (take j [q]) < length cs' \<and>
          capture_value (token_of ([q] ! j)) (cs' ! nwild (take j [q])) = Scalar (split CHR ''/'' rest ! j)"
        using lastm_single_capture[of q rest cs'] by (simp add: nwild_def)
    qed
    then show ?thesis by simp
  qed
next
  case (4 p q r ps s)
  from multi_only_last_Cons[OF 4(2)] have np: "\<not> isMulti p" and ml: "multi_only_last (q # r # ps)" by simp_all
  have pm: "piecem p s (dm (q # r # ps)) = Some cs" using 4(4) by simp
  show ?case
  proof (rule piece_single_capture[OF _ np pm])
    show "CHR ''/'' \<notin> set p" using 4(3) by simp
    show "i < Suc (length (q # r # ps))" using 4(5) by simp
    show "isSingle ((p # q # r # ps) ! i)" using 4(6) by simp
  next
    fix rest cs' j assume a: "dm (q # r # ps) rest = Some cs'" "j < length (q # r # ps)" "isSingle ((q # r # ps) ! j)"
    show "nwild (take j (q # r # ps)) < length cs' \<and>
          capture_value (token_of ((q # r # ps) ! j)) (cs' ! nwild (take j (q # r # ps)))
            = Scalar (split CHR ''/'' rest ! j)"
      using 4(1)[OF ml _ a] 4(3) by simp
  qed
qed

lemma dm_multi_capture:
  "multi_only_last segs \<Longrightarrow> segs \<noteq> [] \<Longrightarrow> \<forall>p\<in>set segs. CHR ''/'' \<notin> set p \<Longrightarrow>
   isMulti (last segs) \<Longrightarrow> dm segs s = Some cs \<Longrightarrow> cs \<noteq> [] \<and> wellsep False (last cs)"
proof (induction segs s arbitrary: cs rule: dm.induct)
  case (1 s) then show ?case by simp
next
  case (2 p s)
  then show ?case using isSingle_not_multi[of p] by (auto simp: lastm_def split: if_splits)
next
  case (3 p q s)
  then show ?case by (auto simp: bmm_def split: if_splits)
next
  case (4 p q r ps s)
  from multi_only_last_Cons[OF 4(2)] have np: "\<not> isMulti p" and ml: "multi_only_last (q # r # ps)" by simp_all
  have pm: "piecem p s (dm (q # r # ps)) = Some cs" using 4(6) by simp
  from piecem_split[OF _ np pm] 4(4) obtain t rest cs' where
    x: "dm (q # r # ps) rest = Some cs'" "cs = (if isSingle p then (t @ ''/'') # cs' else cs')" by auto
  have "cs' \<noteq> [] \<and> wellsep False (last cs')" using 4(1)[OF ml _ _ _ x(1)] 4(4,5) by simp
  then show ?case using x(2) by auto
qed

subsection \<open>Extraction as a sequence of writes\<close>

text \<open>On the captures of a match every capture is defined and there is one per non-raw
  token, so the \<open>forEach\<close> of the extraction function is a plain fold of updates.\<close>


fun writes :: "Token list \<Rightarrow> string list \<Rightarrow> params \<Rightarrow> params" where
  "writes [] cs ps = ps"
| "writes (t # ts) [] ps = ps"
| "writes (t # ts) (c # cs) ps =
     writes ts cs (if name_t t = None \<or> name_t t = Some [] then ps
                   else assign ps (the (name_t t)) (capture_value t c))"

lemma forEach_writes:
  "length cs \<le> length toks \<Longrightarrow> forEach_capture toks (map Some cs) ps = Inr (writes toks cs ps)"
proof (induction cs arbitrary: toks ps)
  case Nil
  show ?case by (cases toks) simp_all
next
  case (Cons c cs)
  then obtain t ts where t: "toks = t # ts" by (cases toks) auto
  then have l: "length cs \<le> length ts" using Cons.prems by simp
  show ?case
  proof (cases "name_t t = None \<or> name_t t = Some []")
    case True
    then show ?thesis using Cons.IH[OF l, of ps] t by auto
  next
    case False
    then obtain y where y: "name_t t = Some y" "y \<noteq> []" by (cases "name_t t") auto
    then show ?thesis using Cons.IH[OF l, of "assign ps y (capture_value t c)"] t
      by simp
  qed
qed

lemma writes_append:
  "length A = length ca \<Longrightarrow> writes (A @ T) (ca @ C) ps = writes T C (writes A ca ps)"
proof (induction A ca ps rule: writes.induct)
  case (1 cs ps) then show ?case by simp
next
  case (2 t ts ps) then show ?case by simp
next
  case (3 t ts c cs ps) then show ?case by simp
qed

text \<open>What an assignment changes: an own property of any name but \<open>__proto__\<close>, or the
  prototype; an object without an own property \<open>__proto__\<close> never gets one.\<close>

lemma assign_own:
  "nm \<noteq> ''__proto__'' \<Longrightarrow> own (assign ps k v) nm = (if k = nm then Some v else own ps nm)"
  by (cases v) (auto simp: assign_def)

lemma assign_own_proto:
  "own ps ''__proto__'' = None \<Longrightarrow> own (assign ps k v) ''__proto__'' = None"
  by (cases v) (auto simp: assign_def)

lemma assign_other:
  "k \<noteq> ''__proto__'' \<Longrightarrow> assign ps k v = ps\<lparr> own := (own ps)(k \<mapsto> v) \<rparr>"
  by (simp add: assign_def)

lemma assign_proto:
  "own ps ''__proto__'' = None \<Longrightarrow> assign ps ''__proto__'' (Sequence xs) = ps\<lparr> proto := ArrayValue xs \<rparr>"
  "own ps ''__proto__'' = None \<Longrightarrow> assign ps ''__proto__'' (Scalar x) = ps"
  by (simp_all add: assign_def)

lemma writes_own_proto:
  "own ps ''__proto__'' = None \<Longrightarrow> own (writes toks cs ps) ''__proto__'' = None"
proof (induction toks cs ps rule: writes.induct)
  case (1 cs ps) then show ?case by simp
next
  case (2 t ts ps) then show ?case by simp
next
  case (3 t ts c cs ps)
  then show ?case by (simp add: assign_own_proto)
qed

lemma writes_untouched:
  "nm \<noteq> ''__proto__'' \<Longrightarrow> \<forall>t\<in>set toks. name_t t \<noteq> Some nm \<Longrightarrow>
   own (writes toks cs ps) nm = own ps nm"
proof (induction toks cs ps rule: writes.induct)
  case (1 cs ps) then show ?case by simp
next
  case (2 t ts ps) then show ?case by simp
next
  case (3 t ts c cs ps)
  then show ?case by (cases "name_t t") (auto simp: assign_own)
qed

lemma writes_at:
  assumes "length A = length ca" "name_t t = Some nm" "nm \<noteq> []" "\<forall>u\<in>set B. name_t u \<noteq> Some nm"
    "nm \<noteq> ''__proto__''"
  shows "own (writes (A @ t # B) (ca @ c # cb) ps) nm = Some (capture_value t c)"
proof -
  have "writes (A @ t # B) (ca @ c # cb) ps = writes (t # B) (c # cb) (writes A ca ps)"
    by (rule writes_append[OF assms(1)])
  also have "\<dots> = writes B cb (assign (writes A ca ps) nm (capture_value t c))"
    using assms(2,3) by simp
  finally show ?thesis using writes_untouched[OF assms(5,4)] assms(5) by (simp add: assign_own)
qed

lemma writes_at_proto:
  assumes "length A = length ca" "name_t t = Some ''__proto__''" "own ps ''__proto__'' = None"
    "capture_value t c = Sequence xs"
  shows "proto (writes (A @ [t]) (ca @ [c]) ps) = ArrayValue xs"
    and "own (writes (A @ [t]) (ca @ [c]) ps) ''__proto__'' = None"
proof -
  have "writes (A @ [t]) (ca @ [c]) ps = writes [t] [c] (writes A ca ps)"
    by (rule writes_append[OF assms(1)])
  also have "\<dots> = assign (writes A ca ps) ''__proto__'' (Sequence xs)"
    using assms(2,4) by simp
  finally have e: "writes (A @ [t]) (ca @ [c]) ps = (writes A ca ps)\<lparr> proto := ArrayValue xs \<rparr>"
    using assign_proto(1)[OF writes_own_proto[OF assms(3)]] by simp
  show "proto (writes (A @ [t]) (ca @ [c]) ps) = ArrayValue xs" by (simp add: e)
  show "own (writes (A @ [t]) (ca @ [c]) ps) ''__proto__'' = None"
    by (simp add: e writes_own_proto[OF assms(3)])
qed

lemma nwild_append: "nwild (xs @ ys) = nwild xs + nwild ys"
  by (simp add: nwild_def)

lemma name_token_wild: "\<not> isRaw s \<Longrightarrow> name_t (token_of s) = Some (drop 1 s)"
  by (simp add: name_token_of)

lemma params_at:
  assumes "length cs = nwild segs" "i < length segs" "\<not> isRaw (segs ! i)" "drop 1 (segs ! i) = nm"
    "nm \<noteq> []" "\<forall>j. i < j \<and> j < length segs \<and> \<not> isRaw (segs ! j) \<longrightarrow> drop 1 (segs ! j) \<noteq> nm"
    "nm \<noteq> ''__proto__''"
  shows "own (writes (map token_of (filter (\<lambda>s. \<not> isRaw s) segs)) cs ps) nm
         = Some (capture_value (token_of (segs ! i)) (cs ! nwild (take i segs)))"
proof -
  define A where "A = map token_of (filter (\<lambda>s. \<not> isRaw s) (take i segs))"
  define B where "B = map token_of (filter (\<lambda>s. \<not> isRaw s) (drop (Suc i) segs))"
  define k where "k = nwild (take i segs)"
  have segs: "segs = take i segs @ segs ! i # drop (Suc i) segs"
    using assms(2) by (simp add: id_take_nth_drop)
  have toks: "map token_of (filter (\<lambda>s. \<not> isRaw s) segs) = A @ token_of (segs ! i) # B"
    by (subst segs) (simp add: A_def B_def assms(3))
  have "nwild segs = k + (1 + nwild (drop (Suc i) segs))"
    by (subst segs) (simp add: nwild_append nwild_Cons k_def gcount_def assms(3))
  then have klt: "k < length cs" using assms(1) by simp
  then have cs: "cs = take k cs @ cs ! k # drop (Suc k) cs" by (simp add: id_take_nth_drop)
  have lA: "length A = length (take k cs)" using klt by (simp add: A_def k_def nwild_filter)
  have nB: "\<forall>u\<in>set B. name_t u \<noteq> Some nm"
  proof
    fix u assume "u \<in> set B"
    then obtain s where s: "s \<in> set (drop (Suc i) segs)" "\<not> isRaw s" "u = token_of s" by (auto simp: B_def)
    then obtain j' where j': "j' < length (drop (Suc i) segs)" "drop (Suc i) segs ! j' = s"
      by (auto simp: in_set_conv_nth)
    then have "segs ! (Suc i + j') = s" "Suc i + j' < length segs" by auto
    then have "drop 1 s \<noteq> nm" using assms(6) s(2) by (metis less_add_Suc1 add_Suc)
    then show "name_t u \<noteq> Some nm" using s by (simp add: name_token_wild)
  qed
  have nt: "name_t (token_of (segs ! i)) = Some nm" using assms(3,4) by (simp add: name_token_wild)
  have "own (writes (A @ token_of (segs ! i) # B) (take k cs @ cs ! k # drop (Suc k) cs) ps) nm
        = Some (capture_value (token_of (segs ! i)) (cs ! k))"
    by (rule writes_at[OF lA nt assms(5) nB assms(7)])
  then show ?thesis using toks cs by (simp add: k_def)
qed

lemma tokens_last:
  assumes "length cs = nwild segs" "segs \<noteq> []" "\<not> isRaw (last segs)"
  shows "\<exists>A ca. map token_of (filter (\<lambda>s. \<not> isRaw s) segs) = A @ [token_of (last segs)]
                \<and> cs = ca @ [last cs] \<and> length A = length ca"
proof -
  define A where "A = map token_of (filter (\<lambda>s. \<not> isRaw s) (butlast segs))"
  have segs: "segs = butlast segs @ [last segs]" using assms(2) by simp
  have toks: "map token_of (filter (\<lambda>s. \<not> isRaw s) segs) = A @ [token_of (last segs)]"
    by (subst segs) (simp add: A_def assms(3))
  have "nwild segs = nwild (butlast segs) + 1"
    by (subst segs) (simp add: nwild_append nwild_Cons gcount_def assms(3), simp add: nwild_def)
  then have l: "length cs = Suc (length A)" using assms(1) by (simp add: A_def nwild_filter)
  then have "cs \<noteq> []" by auto
  then have "cs = butlast cs @ [last cs]" by simp
  moreover have "length A = length (butlast cs)" using l by simp
  ultimately show ?thesis using toks by blast
qed

lemma compiled_facts:
  assumes "Pattern_from p = Inr P"
  shows "multi_only_last (split CHR ''/'' p)" "P = compiled p"
    "\<forall>q\<in>set (split CHR ''/'' p). CHR ''/'' \<notin> set q"
  using assms split_notin[of _ "CHR ''/''" p] by (auto simp: Pattern_from_cases split: if_splits)

lemma getParameters_writes:
  assumes "Pattern_from p = Inr P" "dm (split CHR ''/'' p) topic = Some cs"
  shows "getParameters P (match P topic)
         = Inr (writes (map token_of (filter (\<lambda>s. \<not> isRaw s) (split CHR ''/'' p))) cs (plain Map.empty))"
proof -
  note f = compiled_facts[OF assms(1)]
  have "length cs \<le> length (map token_of (filter (\<lambda>s. \<not> isRaw s) (split CHR ''/'' p)))"
    using dm_length[OF f(1) assms(2)] by (simp add: nwild_filter)
  from forEach_writes[OF this] show ?thesis
    using match_dm[OF assms(1), of topic] assms(2)
    by (simp add: getParameters_def buildParameterFunction_def f(2) removeRaw_tokens)
qed

lemma match_Some_dm:
  assumes "Pattern_from p = Inr P" "match P topic \<noteq> None"
  shows "\<exists>cs. dm (split CHR ''/'' p) topic = Some cs"
  using match_dm[OF assms(1), of topic] assms(2) by (cases "dm (split CHR ''/'' p) topic") auto

lemma match_conf:
  assumes "Pattern_from p = Inr P" "match P topic \<noteq> None"
  shows "conf (split CHR ''/'' p) (split CHR ''/'' topic)"
proof -
  note f = compiled_facts[OF assms(1)]
  from match_Some_dm[OF assms] obtain cs where "dm (split CHR ''/'' p) topic = Some cs" by blast
  from dm_conf[OF f(1) split_nonempty f(3) this] show ?thesis .
qed

section \<open>Claims about matching\<close>


lemmas dm_eval = lastm_def piecem_def bmm_def isSingle_def isMulti_def first_is_def segchar_def

lemma no_multi_at_all:
  assumes "multi_only_last segs" "segs \<noteq> []" "\<not> isMulti (last segs)"
  shows "\<forall>q\<in>set segs. \<not> isMulti q"
proof
  fix q assume "q \<in> set segs"
  then obtain j where j: "j < length segs" "segs ! j = q" by (auto simp: in_set_conv_nth)
  show "\<not> isMulti q"
  proof (cases "Suc j < length segs")
    case True then show ?thesis using assms(1) j by (auto simp: multi_only_last_def)
  next
    case False
    then have "j = length segs - 1" using j(1) by linarith
    then have "q = last segs" using j(2) last_conv_nth[OF assms(2)] by simp
    then show ?thesis using assms(3) by simp
  qed
qed

text \<open>
  C10. When the last segment of a compiled pattern is a named multi wildcard and a topic
  matches, the name is bound to a list none of whose elements is the empty string. The list
  is an own property of the result; under the name \<open>__proto__\<close> it is the prototype of the
  result, which is what reading \<open>__proto__\<close> returns.
\<close>

theorem C10_multi_elements_nonempty:
  assumes "Pattern_from p = Inr P" "last (split CHR ''/'' p) = CHR ''#'' # nm" "nm \<noteq> []"
    "match P topic \<noteq> None"
  shows "\<exists>ps xs. getParameters P (match P topic) = Inr ps
                \<and> (if nm = ''__proto__'' then proto ps = ArrayValue xs \<and> own ps nm = None
                    else own ps nm = Some (Sequence xs))
                \<and> (\<forall>x\<in>set xs. x \<noteq> [])"
proof -
  define segs where "segs = split CHR ''/'' p"
  define toks where "toks = map token_of (filter (\<lambda>s. \<not> isRaw s) segs)"
  note f = compiled_facts[OF assms(1), folded segs_def]
  have ne: "segs \<noteq> []" by (simp add: segs_def)
  have ml: "isMulti (last segs)" using assms(2) by (simp add: segs_def isMulti_def first_is_def)
  from match_Some_dm[OF assms(1,4)] obtain cs where cs: "dm segs topic = Some cs" by (auto simp: segs_def)
  have len: "length cs = nwild segs" by (rule dm_length[OF f(1) cs])
  from dm_multi_capture[OF f(1) ne f(3) ml cs] have c: "cs \<noteq> []" "wellsep False (last cs)" by simp_all
  have nr: "\<not> isRaw (last segs)" using ml by (simp add: isRaw_def)
  from tokens_last[OF len ne nr] obtain A ca where
    A: "toks = A @ [token_of (last segs)]" "cs = ca @ [last cs]" "length A = length ca"
    by (auto simp: toks_def)
  have nt: "name_t (token_of (last segs)) = Some nm"
    using nr assms(2) by (simp add: name_token_wild segs_def)
  from multi_value[OF ml c(2)] obtain xs where
    xs: "capture_value (token_of (last segs)) (last cs) = Sequence xs" "\<forall>x\<in>set xs. x \<noteq> []" by blast
  have g: "getParameters P (match P topic) = Inr (writes toks cs (plain Map.empty))"
    using getParameters_writes[OF assms(1) cs[unfolded segs_def]] by (simp add: toks_def segs_def)
  have e: "writes toks cs (plain Map.empty) = writes (A @ [token_of (last segs)]) (ca @ [last cs]) (plain Map.empty)"
    using A(1,2) by simp
  show ?thesis
  proof (cases "nm = ''__proto__''")
    case True
    have o: "own (plain Map.empty) ''__proto__'' = None" by (simp add: plain_def)
    note w = writes_at_proto[OF A(3) nt[unfolded True] o xs(1)]
    show ?thesis using g e w xs(2) True by simp
  next
    case False
    have "own (writes (A @ token_of (last segs) # []) (ca @ last cs # []) (plain Map.empty)) nm
          = Some (capture_value (token_of (last segs)) (last cs))"
      by (rule writes_at[OF A(3) nt assms(3) _ False]) simp
    then show ?thesis using g e xs False by simp
  qed
qed

theorem C10_witness:
  "(\<exists>P ps xs. Pattern_from ''config/#keys'' = Inr P
      \<and> getParameters P (match P ''config/a/b/'') = Inr ps \<and> own ps ''keys'' = Some (Sequence xs)
      \<and> [] \<notin> set xs)
   \<and> (\<exists>P ps xs. Pattern_from ''config/#__proto__'' = Inr P
      \<and> getParameters P (match P ''config/a/b/'') = Inr ps \<and> proto ps = ArrayValue xs
      \<and> own ps ''__proto__'' = None \<and> [] \<notin> set xs)"
proof -
  have c: "Pattern_from ''config/#keys'' = Inr (compiled ''config/#keys'')"
    by (rule compiles) (simp add: isMulti_def first_is_def)
  have l: "last (split CHR ''/'' ''config/#keys'') = CHR ''#'' # ''keys''" by simp
  have m: "match (compiled ''config/#keys'') ''config/a/b/'' \<noteq> None"
    using match_dm[OF c, of "''config/a/b/''"] by (simp add: dm_eval)
  have c': "Pattern_from ''config/#__proto__'' = Inr (compiled ''config/#__proto__'')"
    by (rule compiles) (simp add: isMulti_def first_is_def)
  have l': "last (split CHR ''/'' ''config/#__proto__'') = CHR ''#'' # ''__proto__''" by simp
  have m': "match (compiled ''config/#__proto__'') ''config/a/b/'' \<noteq> None"
    using match_dm[OF c', of "''config/a/b/''"] by (simp add: dm_eval)
  have 1: "\<exists>P ps xs. Pattern_from ''config/#keys'' = Inr P
      \<and> getParameters P (match P ''config/a/b/'') = Inr ps \<and> own ps ''keys'' = Some (Sequence xs)
      \<and> [] \<notin> set xs"
    using C10_multi_elements_nonempty[OF c l _ m] c by fastforce
  have 2: "\<exists>P ps xs. Pattern_from ''config/#__proto__'' = Inr P
      \<and> getParameters P (match P ''config/a/b/'') = Inr ps \<and> proto ps = ArrayValue xs
      \<and> own ps ''__proto__'' = None \<and> [] \<notin> set xs"
    using C10_multi_elements_nonempty[OF c' l' _ m'] c' by fastforce
  from 1 2 show ?thesis by blast
qed

text \<open>
  C9. A compiled pattern with at least one wildcard segment never matches its own
  subscribable topic.
\<close>

theorem C9_pattern_never_matches_its_topic:
  assumes "Pattern_from p = Inr P"
    "\<exists>seg\<in>set (split CHR ''/'' p). first_is CHR ''+'' seg \<or> first_is CHR ''#'' seg"
  shows "match P (getTopic P) = None"
proof (rule ccontr)
  assume a: "match P (getTopic P) \<noteq> None"
  define segs where "segs = split CHR ''/'' p"
  note f = compiled_facts[OF assms(1), folded segs_def]
  have t: "getTopic P = join CHR ''/'' (map render segs)"
    by (simp add: getTopic_def f(2) buildTopic_render segs_def)
  have "\<forall>x\<in>set (map render segs). CHR ''/'' \<notin> set x" using f(3) render_no_slash by auto
  then have sp: "split CHR ''/'' (getTopic P) = map render segs"
    unfolding t by (intro split_join) (simp_all add: segs_def)
  have "conf segs (map render segs)" using match_conf[OF assms(1) a] sp by (simp add: segs_def)
  moreover have "\<exists>q\<in>set segs. \<not> isRaw q"
    using assms(2) by (auto simp: segs_def isRaw_def isSingle_def isMulti_def)
  ultimately show False using not_conf_render[OF _ refl f(1)] by blast
qed

theorem C9_witness:
  "\<exists>P. Pattern_from ''devices/+deviceId/status'' = Inr P \<and> getTopic P = ''devices/+/status''
       \<and> match P (getTopic P) = None"
proof -
  have c: "Pattern_from ''devices/+deviceId/status'' = Inr (compiled ''devices/+deviceId/status'')"
    by (rule compiles) (simp add: isMulti_def first_is_def)
  have w: "\<exists>seg\<in>set (split CHR ''/'' ''devices/+deviceId/status''). first_is CHR ''+'' seg \<or> first_is CHR ''#'' seg"
    by (simp add: first_is_def)
  have t: "getTopic (compiled ''devices/+deviceId/status'') = ''devices/+/status''"
    by (simp add: getTopic_def buildTopic_def token_of_def processSingle_def processRaw_def
        isSingle_def isMulti_def first_is_def escapeStringRegexp_def matchOperators_def Let_def)
  from C9_pattern_never_matches_its_topic[OF c w] c t show ?thesis by blast
qed

text \<open>
  Raw segments away from the final multi wildcard. When a topic matches, the topic segment
  at the position of a raw pattern segment is that literal, character for character; the
  one raw segment this does not hold for stands directly before the final multi wildcard,
  where only a prefix of the topic segment is compared.
\<close>

lemma raw_segments_match_literally:
  assumes "Pattern_from p = Inr P" "match P topic \<noteq> None" "i < length (split CHR ''/'' p)"
    "\<not> first_is CHR ''+'' (split CHR ''/'' p ! i)" "\<not> first_is CHR ''#'' (split CHR ''/'' p ! i)"
  shows "i < length (split CHR ''/'' topic) \<and>
         (if Suc (Suc i) = length (split CHR ''/'' p) \<and> first_is CHR ''#'' (last (split CHR ''/'' p))
          then prefix (split CHR ''/'' p ! i) (split CHR ''/'' topic ! i)
          else split CHR ''/'' topic ! i = split CHR ''/'' p ! i)"
proof -
  have "isRaw (split CHR ''/'' p ! i)" using assms(4,5) by (simp add: isRaw_def isSingle_def isMulti_def)
  from conf_raw[OF match_conf[OF assms(1,2)] assms(3) this] show ?thesis by (simp add: isMulti_def)
qed

lemma raw_segment_example:
  "\<exists>P. Pattern_from ''x/a.b'' = Inr P \<and> match P ''x/a.b'' \<noteq> None \<and> match P ''x/axb'' = None"
proof -
  have c: "Pattern_from ''x/a.b'' = Inr (compiled ''x/a.b'')"
    by (rule compiles) (simp add: isMulti_def first_is_def)
  have m: "match (compiled ''x/a.b'') ''x/a.b'' \<noteq> None"
    using match_dm[OF c, of "''x/a.b''"] by (simp add: dm_eval)
  have n: "match (compiled ''x/a.b'') ''x/axb'' = None"
    using match_dm[OF c, of "''x/axb''"] by (simp add: dm_eval)
  show ?thesis using c m n by blast
qed

text \<open>
  C6. A raw segment standing directly before the final multi wildcard is not matched
  literally. \<open>buildRegularExpression\<close> gives it the \<open>last\<close> form of its fragment, whose
  separator is optional, so the text after the literal is read by the wildcard without a
  separator in between: the pattern \<open>a.b/#r\<close> matches the topic \<open>a.bc\<close>, whose only segment
  is not \<open>a.b\<close>, and binds \<open>r\<close> to the list of \<open>c\<close>; in the same way \<open>ab/#r\<close> matches \<open>abc\<close>.
\<close>

theorem C6_raw_before_multi_matches_longer_segment:
  "(\<exists>P. Pattern_from ''a.b/#r'' = Inr P
        \<and> match P ''a.bc'' = Some [Some ''a.bc'', Some ''c'']
        \<and> getParameters P (match P ''a.bc'') = Inr (plain [''r'' \<mapsto> Sequence [''c'']])
        \<and> split CHR ''/'' ''a.b/#r'' = [''a.b'', ''#r''] \<and> split CHR ''/'' ''a.bc'' = [''a.bc'']
        \<and> ''a.bc'' \<noteq> ''a.b'')
   \<and> (\<exists>P. Pattern_from ''ab/#r'' = Inr P
        \<and> match P ''abc'' = Some [Some ''abc'', Some ''c'']
        \<and> getParameters P (match P ''abc'') = Inr (plain [''r'' \<mapsto> Sequence [''c'']]))"
proof -
  have c: "Pattern_from ''a.b/#r'' = Inr (compiled ''a.b/#r'')"
    by (rule compiles) (simp add: isMulti_def first_is_def)
  have d: "dm (split CHR ''/'' ''a.b/#r'') ''a.bc'' = Some [''c'']"
    by (simp add: dm_eval)
  have m: "match (compiled ''a.b/#r'') ''a.bc'' = Some [Some ''a.bc'', Some ''c'']"
    using match_dm[OF c, of "''a.bc''"] d by simp
  have g: "getParameters (compiled ''a.b/#r'') (match (compiled ''a.b/#r'') ''a.bc'')
            = Inr (plain [''r'' \<mapsto> Sequence [''c'']])"
    unfolding getParameters_writes[OF c d]
    by (simp add: isRaw_def isSingle_def isMulti_def first_is_def name_token_of capture_value_def
        token_of_def multiToken_def getLastItem_def removeLastItem_def assign_def plain_def)
  have c': "Pattern_from ''ab/#r'' = Inr (compiled ''ab/#r'')"
    by (rule compiles) (simp add: isMulti_def first_is_def)
  have d': "dm (split CHR ''/'' ''ab/#r'') ''abc'' = Some [''c'']"
    by (simp add: dm_eval)
  have m': "match (compiled ''ab/#r'') ''abc'' = Some [Some ''abc'', Some ''c'']"
    using match_dm[OF c', of "''abc''"] d' by simp
  have g': "getParameters (compiled ''ab/#r'') (match (compiled ''ab/#r'') ''abc'')
            = Inr (plain [''r'' \<mapsto> Sequence [''c'']])"
    unfolding getParameters_writes[OF c' d']
    by (simp add: isRaw_def isSingle_def isMulti_def first_is_def name_token_of capture_value_def
        token_of_def multiToken_def getLastItem_def removeLastItem_def assign_def plain_def)
  have s: "split CHR ''/'' ''a.b/#r'' = [''a.b'', ''#r'']" "split CHR ''/'' ''a.bc'' = [''a.bc'']"
    "''a.bc'' \<noteq> ''a.b''" by simp_all
  show ?thesis using c m g c' m' g' s by blast
qed




subsection \<open>Topics built from values\<close>

definition inst :: "string \<Rightarrow> string \<Rightarrow> bool" where
  "inst p x = (if isSingle p then word x else if isMulti p then wellsep False x else x = p)"

fun ecaps :: "string list \<Rightarrow> string list \<Rightarrow> string list" where
  "ecaps [] xs = []"
| "ecaps [p] xs = (if isRaw p then [] else [hd xs])"
| "ecaps (p # q # ps) xs = (if isRaw p then ecaps (q # ps) (tl xs) else (hd xs @ ''/'') # ecaps (q # ps) (tl xs))"

lemma lastm_complete:
  assumes "inst p x"
  shows "lastm p x = Some (ecaps [p] [x])"
proof -
  consider "isSingle p" | "\<not> isSingle p" "isMulti p" | "\<not> isSingle p" "\<not> isMulti p" by blast
  then show ?thesis
  proof cases
    case 1
    then have w: "word x" using assms by (simp add: inst_def)
    then have "x \<noteq> []" by (simp add: word_def)
    moreover have "takeWhile segchar x = x" "dropWhile segchar x = []"
      using word_takeWhile_end[OF w] by blast+
    ultimately show ?thesis using 1 by (simp only: lastm_def) (simp add: isRaw_def)
  next
    case 2
    then show ?thesis using assms by (simp add: inst_def lastm_def isRaw_def)
  next
    case 3
    then show ?thesis using assms by (simp add: inst_def lastm_def isRaw_def)
  qed
qed

lemma piecem_complete:
  assumes "inst p x" "\<not> isMulti p"
  shows "piecem p (x @ CHR ''/'' # rest) K
         = (if isRaw p then K rest else map_option ((#) (x @ ''/'')) (K rest))"
proof (cases "isSingle p")
  case True
  then have w: "word x" using assms(1) by (simp add: inst_def)
  then have "x \<noteq> []" by (simp add: word_def)
  then show ?thesis using True word_takeWhile[OF w, of rest] by (simp add: piecem_def isRaw_def)
next
  case False
  then have "x = p" using assms by (simp add: inst_def)
  then show ?thesis using False assms(2) by (simp add: piecem_def isRaw_def)
qed

lemma bmm_complete:
  assumes "inst p x" "\<not> isMulti p" "wellsep False y"
  shows "bmm p (x @ CHR ''/'' # y) = Some (if isRaw p then [y] else [x @ ''/'', y])"
proof (cases "isSingle p")
  case True
  then have w: "word x" using assms(1) by (simp add: inst_def)
  then have "x \<noteq> []" by (simp add: word_def)
  then show ?thesis using True word_takeWhile[OF w, of y] assms(3) by (simp add: bmm_def isRaw_def)
next
  case False
  then have "x = p" using assms by (simp add: inst_def)
  then show ?thesis using False assms(2,3) by (simp add: bmm_def isRaw_def)
qed

lemma dm_complete:
  "list_all2 inst segs xs \<Longrightarrow> multi_only_last segs \<Longrightarrow> segs \<noteq> [] \<Longrightarrow>
   dm segs (join CHR ''/'' xs) = Some (ecaps segs xs)"
proof (induction segs "join CHR ''/'' xs" arbitrary: xs rule: dm.induct)
  case 1 then show ?case by simp
next
  case (2 p)
  then obtain x where "xs = [x]" "inst p x" by (auto simp: list_all2_Cons1)
  then show ?case using lastm_complete[of p x] by simp
next
  case (3 p q)
  then obtain x y where xs: "xs = [x, y]" "inst p x" "inst q y" by (auto simp: list_all2_Cons1)
  from multi_only_last_Cons[OF 3(2)] have np: "\<not> isMulti p" by simp
  show ?case
  proof (cases "isMulti q")
    case True
    then have "\<not> isSingle q" using isSingle_not_multi by blast
    then have "wellsep False y" using xs(3) True by (simp add: inst_def)
    then show ?thesis using True xs bmm_complete[OF xs(2) np, of y] by (simp add: isRaw_def)
  next
    case False
    then show ?thesis using xs piecem_complete[OF xs(2) np, of y "lastm q"] lastm_complete[OF xs(3)]
      by (simp add: isRaw_def)
  qed
next
  case (4 p q r ps)
  then obtain x xs' where xs: "xs = x # xs'" "inst p x" "list_all2 inst (q # r # ps) xs'"
    by (auto simp: list_all2_Cons1)
  then obtain y ys where xs': "xs' = y # ys" by (auto simp: list_all2_Cons1)
  from multi_only_last_Cons[OF 4(3)] have np: "\<not> isMulti p" and ml: "multi_only_last (q # r # ps)" by simp_all
  have j: "join CHR ''/'' xs = x @ CHR ''/'' # join CHR ''/'' xs'" using xs xs' by simp
  have ih: "dm (q # r # ps) (join CHR ''/'' xs') = Some (ecaps (q # r # ps) xs')"
    using 4(1)[OF xs(3) ml] by simp
  show ?case using piecem_complete[OF xs(2) np, of "join CHR ''/'' xs'" "dm (q # r # ps)"] ih xs j
    by simp
qed

lemma word_wellsep: "word x \<Longrightarrow> wellsep b x"
  using wellsep_word_append[of x b "[]"] by (simp add: word_segchar)

lemma wellsep_join_words: "\<forall>v\<in>set vs. word v \<Longrightarrow> wellsep False (join CHR ''/'' vs)"
proof (induction "CHR ''/''" vs rule: join.induct)
  case 1 show ?case by simp
next
  case (2 x) then show ?case by (simp add: word_wellsep)
next
  case (3 x y ys)
  then have "wellsep False (join CHR ''/'' (y # ys))" by simp
  moreover have "list_all segchar x" "x \<noteq> []" using 3(2) by (simp_all add: word_segchar)
  ultimately show ?case
    using wellsep_word_append[of x False "CHR ''/'' # join CHR ''/'' (y # ys)"] by simp
qed

lemma multi_value_join:
  assumes "isMulti p" "\<forall>v\<in>set vs. word v"
  shows "capture_value (token_of p) (join CHR ''/'' vs) = Sequence vs"
proof (cases vs)
  case Nil
  then show ?thesis using assms(1)
    by (simp add: capture_value_def type_token_of_multi getLastItem_def removeLastItem_def)
next
  case (Cons v vs')
  have "split CHR ''/'' (join CHR ''/'' vs) = vs"
    using assms(2) Cons by (intro split_join) (auto simp: word_def)
  moreover have "last vs \<noteq> []" using assms(2) Cons by (metis last_in_set list.distinct(1) word_def)
  ultimately show ?thesis using assms(1) Cons
    by (simp add: capture_value_def type_token_of_multi getLastItem_def Let_def)
qed

subsection \<open>Topics that conform to a pattern\<close>

text \<open>A topic made of one conforming segment per pattern segment before the final multi
  wildcard, followed by any number of words for that wildcard, matches.\<close>

lemma join_Cons: "xs \<noteq> [] \<Longrightarrow> join c (x # xs) = x @ c # join c xs"
  by (cases xs) simp_all

lemma join_append_join: "zs \<noteq> [] \<Longrightarrow> join c (ys @ [join c zs]) = join c (ys @ zs)"
  by (induction ys) (simp_all add: join_Cons)

lemma bmm_complete_short:
  assumes "inst p x" "\<not> isMulti p"
  shows "bmm p x \<noteq> None"
proof (cases "isSingle p")
  case True
  then have w: "word x" using assms(1) by (simp add: inst_def)
  then have "x \<noteq> []" by (simp add: word_def)
  moreover have "takeWhile segchar x = x" "dropWhile segchar x = []"
    using word_takeWhile_end[OF w] by blast+
  ultimately show ?thesis using True by (simp only: bmm_def) simp
next
  case False
  then have "x = p" using assms by (simp add: inst_def)
  then show ?thesis using False by (simp add: bmm_def)
qed

lemma dm_complete_short:
  "list_all2 inst pre ys \<Longrightarrow> pre \<noteq> [] \<Longrightarrow> \<forall>p\<in>set pre. \<not> isMulti p \<Longrightarrow> isMulti q \<Longrightarrow>
   dm (pre @ [q]) (join CHR ''/'' ys) \<noteq> None"
proof (induction pre arbitrary: ys rule: induct_list012)
  case 1 then show ?case by simp
next
  case (2 p)
  then obtain x where x: "ys = [x]" "inst p x" by (auto simp: list_all2_Cons1)
  have "\<not> isMulti p" using 2 by simp
  from bmm_complete_short[OF x(2) this] show ?case using x(1) 2(4) by simp
next
  case (3 p p' rest)
  then obtain x ys' where x: "ys = x # ys'" "inst p x" "list_all2 inst (p' # rest) ys'"
    by (auto simp: list_all2_Cons1)
  then obtain y ys'' where y: "ys' = y # ys''" by (auto simp: list_all2_Cons1)
  have np: "\<not> isMulti p" and nr: "\<forall>p\<in>set (p' # rest). \<not> isMulti p" using 3(5) by simp_all
  have ih: "dm ((p' # rest) @ [q]) (join CHR ''/'' ys') \<noteq> None"
    by (rule 3(2)[OF x(3) _ nr 3(6)]) simp
  obtain r ps where r: "rest @ [q] = r # ps" by (cases "rest @ [q]") auto
  have j: "join CHR ''/'' ys = x @ CHR ''/'' # join CHR ''/'' ys'" using x(1) y by simp
  have "dm ((p # p' # rest) @ [q]) (join CHR ''/'' ys)
        = piecem p (x @ CHR ''/'' # join CHR ''/'' ys') (dm (p' # r # ps))"
    using r j by simp
  also have "\<dots> = (if isRaw p then dm (p' # r # ps) (join CHR ''/'' ys')
                    else map_option ((#) (x @ ''/'')) (dm (p' # r # ps) (join CHR ''/'' ys')))"
    by (rule piecem_complete[OF x(2) np])
  finally show ?case using ih r by auto
qed

lemma dm_conforming:
  assumes "multi_only_last segs" "segs \<noteq> []"
    "length ys = length (if isMulti (last segs) then butlast segs else segs)"
    "\<forall>j < length ys. if isSingle (segs ! j) \<or> isMulti (segs ! j) then word (ys ! j)
                      else ys ! j = segs ! j"
    "\<forall>z\<in>set zs. word z" "zs \<noteq> [] \<longrightarrow> isMulti (last segs)"
  shows "dm segs (join CHR ''/'' (ys @ zs)) \<noteq> None"
proof (cases "isMulti (last segs)")
  case False
  then have zs: "zs = []" and l: "length ys = length segs" using assms(3,6) by auto
  have "list_all2 inst segs ys"
  proof (rule list_all2_all_nthI)
    show "length segs = length ys" using l by simp
  next
    fix j assume "j < length segs"
    then have "if isSingle (segs ! j) \<or> isMulti (segs ! j) then word (ys ! j) else ys ! j = segs ! j"
      using assms(4) l by simp
    then show "inst (segs ! j) (ys ! j)"
      using word_wellsep[of "ys ! j" False] by (auto simp: inst_def split: if_splits)
  qed
  from dm_complete[OF this assms(1,2)] show ?thesis using zs by simp
next
  case True
  define pre where "pre = butlast segs"
  have segs: "segs = pre @ [last segs]" using assms(2) by (simp add: pre_def)
  have l: "length ys = length pre" using assms(3) True by (simp add: pre_def)
  have npre: "\<not> isMulti (pre ! j)" if "j < length pre" for j
  proof -
    have "Suc j < length segs" using that by (simp add: pre_def)
    then have "\<not> isMulti (segs ! j)" using assms(1) by (simp add: multi_only_last_def)
    then show ?thesis using that by (simp add: pre_def nth_butlast)
  qed
  have ip: "list_all2 inst pre ys"
  proof (rule list_all2_all_nthI)
    show "length pre = length ys" using l by simp
  next
    fix j assume j: "j < length pre"
    then have e: "segs ! j = pre ! j" by (simp add: pre_def nth_butlast)
    have "if isSingle (segs ! j) \<or> isMulti (segs ! j) then word (ys ! j) else ys ! j = segs ! j"
      using assms(4) l j by simp
    then show "inst (pre ! j) (ys ! j)"
      using npre[OF j] e by (auto simp: inst_def split: if_splits)
  qed
  show ?thesis
  proof (cases "zs = []")
    case False
    have "inst (last segs) (join CHR ''/'' zs)"
      using True isSingle_not_multi[of "last segs"] wellsep_join_words[OF assms(5)]
      by (auto simp: inst_def)
    then have "list_all2 inst (pre @ [last segs]) (ys @ [join CHR ''/'' zs])"
      using ip by (simp add: list_all2_appendI)
    then have "list_all2 inst segs (ys @ [join CHR ''/'' zs])" using segs by simp
    from dm_complete[OF this assms(1,2)] show ?thesis
      using join_append_join[OF False, of "CHR ''/''" ys] by simp
  next
    case zs: True
    show ?thesis
    proof (cases "pre = []")
      case True
      then have "ys = []" using l by simp
      moreover have "segs = [last segs]" using segs True by simp
      moreover have "\<not> isSingle (last segs)" using \<open>isMulti (last segs)\<close> isSingle_not_multi by blast
      ultimately have "dm segs (join CHR ''/'' (ys @ zs)) = Some [[]]"
        using zs \<open>isMulti (last segs)\<close>
        by (metis append_Nil2 dm.simps(2) join.simps(1) lastm_def wellsep.simps(1))
      then show ?thesis by simp
    next
      case False
      have "\<forall>p\<in>set pre. \<not> isMulti p" using npre by (auto simp: in_set_conv_nth)
      from dm_complete_short[OF ip False this True] show ?thesis using segs zs by simp
    qed
  qed
qed

text \<open>
  C3, as the code has it. Take a compiled pattern whose segment \<open>i\<close> is a named single
  wildcard \<open>+nm\<close>, the name not being \<open>__proto__\<close> and not being used again by a later
  wildcard. Whenever a topic matches, the topic has a segment \<open>i\<close>, which is non-empty and
  free of \<open>/\<close>, \<open>#\<close> and \<open>+\<close>, and \<open>getParameters\<close> binds \<open>nm\<close> to exactly that segment; without a
  final multi wildcard the topic has as many segments as the pattern, or one more, empty,
  after a trailing slash. Conversely a topic matches when it has, for each pattern segment
  before the final multi wildcard, one segment (the literal at a raw position, a non-empty
  segment free of \<open>/\<close>, \<open>#\<close>, \<open>+\<close> at a wildcard position), followed, if the pattern ends with a
  multi wildcard, by any number of such non-empty segments, none included.
\<close>

theorem C3_single_wildcard_one_segment:
  assumes "Pattern_from p = Inr P" "i < length (split CHR ''/'' p)"
    "split CHR ''/'' p ! i = CHR ''+'' # nm" "nm \<noteq> []" "nm \<noteq> ''__proto__''"
    "\<forall>j. i < j \<and> j < length (split CHR ''/'' p) \<and>
         (first_is CHR ''+'' (split CHR ''/'' p ! j) \<or> first_is CHR ''#'' (split CHR ''/'' p ! j))
         \<longrightarrow> drop 1 (split CHR ''/'' p ! j) \<noteq> nm"
  shows "(match P topic \<noteq> None \<longrightarrow>
            i < length (split CHR ''/'' topic) \<and> word (split CHR ''/'' topic ! i)
            \<and> (\<exists>ps. getParameters P (match P topic) = Inr ps
                     \<and> own ps nm = Some (Scalar (split CHR ''/'' topic ! i)))
            \<and> (\<not> first_is CHR ''#'' (last (split CHR ''/'' p)) \<longrightarrow>
                  length (split CHR ''/'' topic) = length (split CHR ''/'' p)
                  \<or> (length (split CHR ''/'' topic) = Suc (length (split CHR ''/'' p))
                      \<and> last (split CHR ''/'' topic) = [])))
       \<and> (length ys = length (if first_is CHR ''#'' (last (split CHR ''/'' p))
                              then butlast (split CHR ''/'' p) else split CHR ''/'' p)
            \<and> (\<forall>j < length ys.
                  if first_is CHR ''+'' (split CHR ''/'' p ! j) \<or> first_is CHR ''#'' (split CHR ''/'' p ! j)
                  then word (ys ! j) else ys ! j = split CHR ''/'' p ! j)
            \<and> (\<forall>z\<in>set zs. word z)
            \<and> (zs \<noteq> [] \<longrightarrow> first_is CHR ''#'' (last (split CHR ''/'' p)))
            \<longrightarrow> match P (join CHR ''/'' (ys @ zs)) \<noteq> None)"
proof (intro conjI impI)
  define segs where "segs = split CHR ''/'' p"
  define ts where "ts = split CHR ''/'' topic"
  note f = compiled_facts[OF assms(1), folded segs_def]
  have si: "isSingle (segs ! i)" using assms(3) by (simp add: segs_def isSingle_def first_is_def)
  then have nr: "\<not> isRaw (segs ! i)" by (simp add: isRaw_def)
  assume m: "match P topic \<noteq> None"
  from match_Some_dm[OF assms(1) m] obtain cs where cs: "dm segs topic = Some cs" by (auto simp: segs_def)
  have cf: "conf segs ts" using match_conf[OF assms(1) m] by (simp add: segs_def ts_def)
  from conf_single[OF cf _ si] assms(2) have a: "i < length ts" "word (ts ! i)" by (simp_all add: segs_def)
  show "i < length (split CHR ''/'' topic)" "word (split CHR ''/'' topic ! i)"
    using a by (simp_all add: ts_def)
  have len: "length cs = nwild segs" by (rule dm_length[OF f(1) cs])
  from dm_single_capture[OF f(1) f(3) cs _ si] assms(2)
  have cv: "capture_value (token_of (segs ! i)) (cs ! nwild (take i segs)) = Scalar (ts ! i)"
    by (simp add: segs_def ts_def)
  have "own (writes (map token_of (filter (\<lambda>s. \<not> isRaw s) segs)) cs (plain Map.empty)) nm
         = Some (capture_value (token_of (segs ! i)) (cs ! nwild (take i segs)))"
  proof (rule params_at[OF len _ nr _ assms(4) _ assms(5)])
    show "i < length segs" using assms(2) by (simp add: segs_def)
    show "drop 1 (segs ! i) = nm" using assms(3) by (simp add: segs_def)
    show "\<forall>j. i < j \<and> j < length segs \<and> \<not> isRaw (segs ! j) \<longrightarrow> drop 1 (segs ! j) \<noteq> nm"
      using assms(6) by (auto simp: segs_def isRaw_def isSingle_def isMulti_def)
  qed
  then show "\<exists>ps. getParameters P (match P topic) = Inr ps \<and> own ps nm = Some (Scalar (split CHR ''/'' topic ! i))"
    using getParameters_writes[OF assms(1) cs[unfolded segs_def]] cv by (simp add: segs_def ts_def)
  show "length (split CHR ''/'' topic) = length (split CHR ''/'' p)
        \<or> (length (split CHR ''/'' topic) = Suc (length (split CHR ''/'' p)) \<and> last (split CHR ''/'' topic) = [])"
    if "\<not> first_is CHR ''#'' (last (split CHR ''/'' p))"
  proof -
    have "\<forall>q\<in>set segs. \<not> isMulti q"
      using no_multi_at_all[OF f(1)] that by (simp add: segs_def isMulti_def)
    from conf_count[OF cf this] show ?thesis by (simp add: segs_def ts_def)
  qed
next
  define segs where "segs = split CHR ''/'' p"
  note f = compiled_facts[OF assms(1), folded segs_def]
  assume a: "length ys = length (if first_is CHR ''#'' (last (split CHR ''/'' p))
                              then butlast (split CHR ''/'' p) else split CHR ''/'' p)
            \<and> (\<forall>j < length ys.
                  if first_is CHR ''+'' (split CHR ''/'' p ! j) \<or> first_is CHR ''#'' (split CHR ''/'' p ! j)
                  then word (ys ! j) else ys ! j = split CHR ''/'' p ! j)
            \<and> (\<forall>z\<in>set zs. word z)
            \<and> (zs \<noteq> [] \<longrightarrow> first_is CHR ''#'' (last (split CHR ''/'' p)))"
  have "dm segs (join CHR ''/'' (ys @ zs)) \<noteq> None"
  proof (rule dm_conforming[OF f(1)])
    show "segs \<noteq> []" by (simp add: segs_def)
    show "length ys = length (if isMulti (last segs) then butlast segs else segs)"
      using a by (simp add: segs_def isMulti_def)
    show "\<forall>j < length ys. if isSingle (segs ! j) \<or> isMulti (segs ! j) then word (ys ! j)
                      else ys ! j = segs ! j"
      using a by (simp add: segs_def isSingle_def isMulti_def)
    show "\<forall>z\<in>set zs. word z" using a by simp
    show "zs \<noteq> [] \<longrightarrow> isMulti (last segs)" using a by (simp add: segs_def isMulti_def)
  qed
  then show "match P (join CHR ''/'' (ys @ zs)) \<noteq> None"
    using match_dm[OF assms(1), of "join CHR ''/'' (ys @ zs)"] by (auto simp: segs_def)
qed

theorem C3_witness:
  "(\<exists>P ps. Pattern_from ''devices/+deviceId/status'' = Inr P
      \<and> match P ''devices/42/status'' \<noteq> None
      \<and> getParameters P (match P ''devices/42/status'') = Inr ps
      \<and> own ps ''deviceId'' = Some (Scalar ''42'')
      \<and> length (split CHR ''/'' ''devices/42/status'') = 3)
   \<and> (\<exists>P. Pattern_from ''+x/#r'' = Inr P \<and> match P ''b/c/d'' \<noteq> None \<and> match P ''b'' \<noteq> None)"
proof -
  have c: "Pattern_from ''devices/+deviceId/status'' = Inr (compiled ''devices/+deviceId/status'')"
    by (rule compiles) (simp add: isMulti_def first_is_def)
  have i: "1 < length (split CHR ''/'' ''devices/+deviceId/status'')" by simp
  have s: "split CHR ''/'' ''devices/+deviceId/status'' ! 1 = CHR ''+'' # ''deviceId''" by simp
  have n: "''deviceId'' \<noteq> []" "''deviceId'' \<noteq> ''__proto__''" by simp_all
  have l: "\<forall>j. 1 < j \<and> j < length (split CHR ''/'' ''devices/+deviceId/status'') \<and>
         (first_is CHR ''+'' (split CHR ''/'' ''devices/+deviceId/status'' ! j)
          \<or> first_is CHR ''#'' (split CHR ''/'' ''devices/+deviceId/status'' ! j))
         \<longrightarrow> drop 1 (split CHR ''/'' ''devices/+deviceId/status'' ! j) \<noteq> ''deviceId''"
  proof (intro allI impI)
    fix j
    assume a: "1 < j \<and> j < length (split CHR ''/'' ''devices/+deviceId/status'') \<and>
         (first_is CHR ''+'' (split CHR ''/'' ''devices/+deviceId/status'' ! j)
          \<or> first_is CHR ''#'' (split CHR ''/'' ''devices/+deviceId/status'' ! j))"
    then have "j = 2" by simp
    then show "drop 1 (split CHR ''/'' ''devices/+deviceId/status'' ! j) \<noteq> ''deviceId''" by simp
  qed
  have x: "length [''devices'', ''42'', ''status'']
             = length (if first_is CHR ''#'' (last (split CHR ''/'' ''devices/+deviceId/status''))
                       then butlast (split CHR ''/'' ''devices/+deviceId/status'')
                       else split CHR ''/'' ''devices/+deviceId/status'')
            \<and> (\<forall>j < length [''devices'', ''42'', ''status''].
                  if first_is CHR ''+'' (split CHR ''/'' ''devices/+deviceId/status'' ! j)
                     \<or> first_is CHR ''#'' (split CHR ''/'' ''devices/+deviceId/status'' ! j)
                  then word ([''devices'', ''42'', ''status''] ! j)
                  else [''devices'', ''42'', ''status''] ! j = split CHR ''/'' ''devices/+deviceId/status'' ! j)
            \<and> (\<forall>z\<in>set ([] :: string list). word z)
            \<and> (([] :: string list) \<noteq> [] \<longrightarrow> first_is CHR ''#'' (last (split CHR ''/'' ''devices/+deviceId/status'')))"
    by (simp add: first_is_def word_def less_Suc_eq)
  note t = C3_single_wildcard_one_segment[OF c i s n l, of "''devices/42/status''" "[''devices'', ''42'', ''status'']" "[]"]
  have "match (compiled ''devices/+deviceId/status'') (join CHR ''/'' ([''devices'', ''42'', ''status''] @ [])) \<noteq> None"
    by (rule mp[OF conjunct2[OF t] x])
  then have m: "match (compiled ''devices/+deviceId/status'') ''devices/42/status'' \<noteq> None" by simp
  from mp[OF conjunct1[OF t] m]
  have "\<exists>ps. getParameters (compiled ''devices/+deviceId/status'')
                       (match (compiled ''devices/+deviceId/status'') ''devices/42/status'') = Inr ps
                  \<and> own ps ''deviceId'' = Some (Scalar (split CHR ''/'' ''devices/42/status'' ! 1))" by blast
  then have 1: "\<exists>P ps. Pattern_from ''devices/+deviceId/status'' = Inr P
      \<and> match P ''devices/42/status'' \<noteq> None
      \<and> getParameters P (match P ''devices/42/status'') = Inr ps
      \<and> own ps ''deviceId'' = Some (Scalar ''42'')
      \<and> length (split CHR ''/'' ''devices/42/status'') = 3"
    using c m by auto
  have c': "Pattern_from ''+x/#r'' = Inr (compiled ''+x/#r'')"
    by (rule compiles) (simp add: isMulti_def first_is_def)
  have i': "0 < length (split CHR ''/'' ''+x/#r'')" by simp
  have s': "split CHR ''/'' ''+x/#r'' ! 0 = CHR ''+'' # ''x''" by simp
  have n': "''x'' \<noteq> []" "''x'' \<noteq> ''__proto__''" by simp_all
  have l': "\<forall>j. 0 < j \<and> j < length (split CHR ''/'' ''+x/#r'') \<and>
         (first_is CHR ''+'' (split CHR ''/'' ''+x/#r'' ! j) \<or> first_is CHR ''#'' (split CHR ''/'' ''+x/#r'' ! j))
         \<longrightarrow> drop 1 (split CHR ''/'' ''+x/#r'' ! j) \<noteq> ''x''"
  proof (intro allI impI)
    fix j
    assume "0 < j \<and> j < length (split CHR ''/'' ''+x/#r'') \<and>
         (first_is CHR ''+'' (split CHR ''/'' ''+x/#r'' ! j) \<or> first_is CHR ''#'' (split CHR ''/'' ''+x/#r'' ! j))"
    then have "j = 1" by simp
    then show "drop 1 (split CHR ''/'' ''+x/#r'' ! j) \<noteq> ''x''" by simp
  qed
  have y: "length [''b''] = length (if first_is CHR ''#'' (last (split CHR ''/'' ''+x/#r''))
                                    then butlast (split CHR ''/'' ''+x/#r'') else split CHR ''/'' ''+x/#r'')
            \<and> (\<forall>j < length [''b''].
                  if first_is CHR ''+'' (split CHR ''/'' ''+x/#r'' ! j) \<or> first_is CHR ''#'' (split CHR ''/'' ''+x/#r'' ! j)
                  then word ([''b''] ! j) else [''b''] ! j = split CHR ''/'' ''+x/#r'' ! j)
            \<and> (\<forall>z\<in>set [''c'', ''d'']. word z)
            \<and> ([''c'', ''d''] \<noteq> [] \<longrightarrow> first_is CHR ''#'' (last (split CHR ''/'' ''+x/#r'')))"
    by (simp add: first_is_def word_def)
  have z: "length [''b''] = length (if first_is CHR ''#'' (last (split CHR ''/'' ''+x/#r''))
                                    then butlast (split CHR ''/'' ''+x/#r'') else split CHR ''/'' ''+x/#r'')
            \<and> (\<forall>j < length [''b''].
                  if first_is CHR ''+'' (split CHR ''/'' ''+x/#r'' ! j) \<or> first_is CHR ''#'' (split CHR ''/'' ''+x/#r'' ! j)
                  then word ([''b''] ! j) else [''b''] ! j = split CHR ''/'' ''+x/#r'' ! j)
            \<and> (\<forall>z\<in>set ([] :: string list). word z)
            \<and> (([] :: string list) \<noteq> [] \<longrightarrow> first_is CHR ''#'' (last (split CHR ''/'' ''+x/#r'')))"
    by (simp add: first_is_def word_def)
  have "match (compiled ''+x/#r'') (join CHR ''/'' ([''b''] @ [''c'', ''d''])) \<noteq> None"
    by (rule mp[OF conjunct2[OF C3_single_wildcard_one_segment[OF c' i' s' n' l', of _ "[''b'']" "[''c'', ''d'']"]] y])
  moreover have "match (compiled ''+x/#r'') (join CHR ''/'' ([''b''] @ [])) \<noteq> None"
    by (rule mp[OF conjunct2[OF C3_single_wildcard_one_segment[OF c' i' s' n' l', of _ "[''b'']" "[]"]] z])
  ultimately have 2: "\<exists>P. Pattern_from ''+x/#r'' = Inr P \<and> match P ''b/c/d'' \<noteq> None \<and> match P ''b'' \<noteq> None"
    using c' by simp
  from 1 2 show ?thesis by blast
qed

theorem C3_counterexample:
  "(\<exists>P. Pattern_from ''a/+x/b'' = Inr P \<and> split CHR ''/'' ''a//b'' = [''a'', [], ''b'']
        \<and> match P ''a//b'' = None)
   \<and> (\<exists>P. Pattern_from ''a/+x'' = Inr P \<and> split CHR ''/'' ''a/b+c'' = [''a'', ''b+c'']
        \<and> match P ''a/b+c'' = None)
   \<and> (\<exists>P. Pattern_from ''a/+__proto__'' = Inr P \<and> split CHR ''/'' ''a/b'' = [''a'', ''b'']
        \<and> match P ''a/b'' = Some [Some ''a/b'', Some ''b'']
        \<and> getParameters P (match P ''a/b'') = Inr (plain Map.empty))"
proof -
  have c: "Pattern_from ''a/+x/b'' = Inr (compiled ''a/+x/b'')"
    by (rule compiles) (simp add: isMulti_def first_is_def)
  have m: "match (compiled ''a/+x/b'') ''a//b'' = None"
    using match_dm[OF c, of "''a//b''"] by (simp add: dm_eval)
  have c': "Pattern_from ''a/+x'' = Inr (compiled ''a/+x'')"
    by (rule compiles) (simp add: isMulti_def first_is_def)
  have m': "match (compiled ''a/+x'') ''a/b+c'' = None"
    using match_dm[OF c', of "''a/b+c''"] by (simp add: dm_eval)
  have c'': "Pattern_from ''a/+__proto__'' = Inr (compiled ''a/+__proto__'')"
    by (rule compiles) (simp add: isMulti_def first_is_def)
  have d'': "dm (split CHR ''/'' ''a/+__proto__'') ''a/b'' = Some [''b'']"
    by (simp add: dm_eval)
  have m'': "match (compiled ''a/+__proto__'') ''a/b'' = Some [Some ''a/b'', Some ''b'']"
    using match_dm[OF c'', of "''a/b''"] d'' by simp
  have g'': "getParameters (compiled ''a/+__proto__'') (match (compiled ''a/+__proto__'') ''a/b'')
              = Inr (plain Map.empty)"
    unfolding getParameters_writes[OF c'' d'']
    by (simp add: isRaw_def isSingle_def isMulti_def first_is_def name_token_of capture_value_def
        token_of_def processSingle_def getLastItem_def removeLastItem_def assign_def plain_def)
  show ?thesis using c m c' m' c'' m'' g'' by auto
qed

subsection \<open>The round trip\<close>

definition subst :: "(string \<rightharpoonup> pvalue) \<Rightarrow> string \<Rightarrow> string" where
  "subst ps token =
     (if first_is CHR ''+'' token then
        (case getProperty ps (drop 1 token) of
           Some v \<Rightarrow> toString v
         | None \<Rightarrow> token)
      else if first_is CHR ''#'' token then
        (case getProperty ps (drop 1 token) of
           Some (Value (Sequence vs)) \<Rightarrow> join CHR ''/'' vs
         | Some v \<Rightarrow> toString v
         | None \<Rightarrow> token)
      else token)"

lemma buildParameterizedTopic_subst:
  "buildParameterizedTopic (compiled p) ps = join CHR ''/'' (map (subst ps) (split CHR ''/'' p))"
  by (simp add: buildParameterizedTopic_def subst_def[abs_def])

lemma subst_single: "isSingle seg \<Longrightarrow> ps (drop 1 seg) = Some (Scalar v) \<Longrightarrow> subst ps seg = v"
  by (simp add: subst_def isSingle_def getProperty_def toString_def)

lemma subst_multi:
  "isMulti seg \<Longrightarrow> ps (drop 1 seg) = Some (Sequence vs) \<Longrightarrow> subst ps seg = join CHR ''/'' vs"
  using isSingle_not_multi[of seg] by (auto simp: subst_def isSingle_def isMulti_def getProperty_def)

definition typed :: "(string \<rightharpoonup> pvalue) \<Rightarrow> string \<Rightarrow> bool" where
  "typed ps seg =
     ((isSingle seg \<longrightarrow> drop 1 seg \<noteq> [] \<and> (\<exists>v. ps (drop 1 seg) = Some (Scalar v) \<and> word v)) \<and>
      (isMulti seg \<longrightarrow> drop 1 seg \<noteq> [] \<and> (\<exists>vs. ps (drop 1 seg) = Some (Sequence vs) \<and> (\<forall>v\<in>set vs. word v))))"

lemma typed_inst: "typed ps seg \<Longrightarrow> inst seg (subst ps seg)"
proof -
  assume t: "typed ps seg"
  consider "isSingle seg" | "\<not> isSingle seg" "isMulti seg" | "\<not> isSingle seg" "\<not> isMulti seg" by blast
  then show ?thesis
  proof cases
    case 1
    then obtain v where "ps (drop 1 seg) = Some (Scalar v)" "word v" using t by (auto simp: typed_def)
    then show ?thesis using 1 subst_single[OF 1] by (simp add: inst_def)
  next
    case 2
    then obtain vs where "ps (drop 1 seg) = Some (Sequence vs)" "\<forall>v\<in>set vs. word v"
      using t by (auto simp: typed_def)
    then show ?thesis using 2 subst_multi[OF 2(2)] wellsep_join_words by (simp add: inst_def)
  next
    case 3
    then show ?thesis by (simp add: inst_def subst_def isSingle_def isMulti_def)
  qed
qed

lemma typed_value:
  assumes "typed ps seg" "\<not> isRaw seg"
  shows "ps (drop 1 seg) = Some (capture_value (token_of seg) (subst ps seg))"
    and "isSingle seg \<Longrightarrow> ps (drop 1 seg) = Some (capture_value (token_of seg) (subst ps seg @ ''/''))"
proof -
  show "ps (drop 1 seg) = Some (capture_value (token_of seg) (subst ps seg))"
  proof (cases "isSingle seg")
    case True
    then obtain v where v: "ps (drop 1 seg) = Some (Scalar v)" "word v" using assms(1) by (auto simp: typed_def)
    then have "subst ps seg = v" using True by (simp add: subst_single)
    then show ?thesis using v single_value(2)[OF True v(2)] by simp
  next
    case False
    then have mu: "isMulti seg" using assms(2) by (simp add: isRaw_def)
    then obtain vs where v: "ps (drop 1 seg) = Some (Sequence vs)" "\<forall>v\<in>set vs. word v"
      using assms(1) by (auto simp: typed_def)
    then have "subst ps seg = join CHR ''/'' vs" using mu by (simp add: subst_multi)
    then show ?thesis using v multi_value_join[OF mu v(2)] by simp
  qed
  show "ps (drop 1 seg) = Some (capture_value (token_of seg) (subst ps seg @ ''/''))" if s: "isSingle seg"
  proof -
    from s obtain v where v: "ps (drop 1 seg) = Some (Scalar v)" "word v" using assms(1) by (auto simp: typed_def)
    then have "subst ps seg = v" using s by (simp add: subst_single)
    then show ?thesis using v single_value(1)[OF s v(2)] by simp
  qed
qed

definition names :: "string list \<Rightarrow> string set" where
  "names segs = set (map (drop 1) (filter (\<lambda>s. \<not> isRaw s) segs))"

lemma writes_ecaps:
  "\<forall>seg\<in>set segs. typed ps seg \<Longrightarrow> multi_only_last segs \<Longrightarrow> ''__proto__'' \<notin> names segs \<Longrightarrow>
   writes (map token_of (filter (\<lambda>s. \<not> isRaw s) segs)) (ecaps segs (map (subst ps) segs)) ps0
   = ps0\<lparr> own := (\<lambda>n. if n \<in> names segs then ps n else own ps0 n) \<rparr>"
proof (induction segs arbitrary: ps0 rule: induct_list012)
  case 1 then show ?case by (simp add: names_def)
next
  case (2 p)
  show ?case
  proof (cases "isRaw p")
    case True then show ?thesis by (simp add: names_def)
  next
    case False
    have t: "typed ps p" using 2 by simp
    then have ne: "drop 1 p \<noteq> []" using False by (auto simp: typed_def isRaw_def)
    have np: "drop 1 p \<noteq> ''__proto__''" using 2(3) False by (simp add: names_def)
    have "(own ps0)(drop 1 p \<mapsto> capture_value (token_of p) (subst ps p))
          = (\<lambda>n. if n \<in> names [p] then ps n else own ps0 n)"
      using False typed_value(1)[OF t False] by (auto simp: names_def)
    then show ?thesis using False ne np
      by (simp add: name_token_wild assign_other)
  qed
next
  case (3 p q rest)
  from multi_only_last_Cons[OF 3(4)] have np: "\<not> isMulti p" and ml: "multi_only_last (q # rest)" by simp_all
  have ty: "\<forall>seg\<in>set (q # rest). typed ps seg" and t: "typed ps p" using 3(3) by simp_all
  have nn: "''__proto__'' \<notin> names (q # rest)" using 3(5) by (auto simp: names_def)
  note ih = 3(2)[OF ty ml nn]
  show ?case
  proof (cases "isRaw p")
    case True
    then show ?thesis using ih[of ps0] by (simp add: names_def)
  next
    case False
    then have s: "isSingle p" using np by (simp add: isRaw_def)
    have ne: "drop 1 p \<noteq> []" using t s by (auto simp: typed_def)
    have npr: "drop 1 p \<noteq> ''__proto__''" using 3(5) False by (auto simp: names_def)
    have v: "ps (drop 1 p) = Some (capture_value (token_of p) (subst ps p @ ''/''))"
      by (rule typed_value(2)[OF t False s])
    define ps1 where "ps1 = ps0\<lparr> own := (own ps0)(drop 1 p \<mapsto> capture_value (token_of p) (subst ps p @ ''/'')) \<rparr>"
    have "writes (map token_of (filter (\<lambda>s. \<not> isRaw s) (p # q # rest)))
            (ecaps (p # q # rest) (map (subst ps) (p # q # rest))) ps0
          = writes (map token_of (filter (\<lambda>s. \<not> isRaw s) (q # rest)))
            (ecaps (q # rest) (map (subst ps) (q # rest))) ps1"
      using False ne npr by (simp add: name_token_wild assign_other ps1_def)
    also have "\<dots> = ps1\<lparr> own := (\<lambda>n. if n \<in> names (q # rest) then ps n else own ps1 n) \<rparr>"
      by (rule ih)
    also have "\<dots> = ps0\<lparr> own := (\<lambda>n. if n \<in> names (p # q # rest) then ps n else own ps0 n) \<rparr>"
    proof -
      have "(\<lambda>n. if n \<in> names (q # rest) then ps n else own ps1 n)
            = (\<lambda>n. if n \<in> names (p # q # rest) then ps n else own ps0 n)"
        using False v by (auto simp: names_def ps1_def fun_eq_iff)
      then show ?thesis by (simp add: ps1_def)
    qed
    finally show ?thesis .
  qed
qed

text \<open>
  C1, as the code has it. The round trip holds for a compiled pattern all of whose wildcards
  are named, none of them \<open>__proto__\<close>, and an object with the prototype \<open>Object.prototype\<close>
  that gives every single wildcard a non-empty string free of \<open>/\<close>, \<open>#\<close> and \<open>+\<close>, gives the
  multi wildcard a list (possibly empty) of such strings, and has no other own property.
\<close>

theorem C1_round_trip:
  assumes "Pattern_from p = Inr P"
    "\<forall>seg\<in>set (split CHR ''/'' p). first_is CHR ''+'' seg \<longrightarrow>
        drop 1 seg \<noteq> [] \<and> drop 1 seg \<noteq> ''__proto__''
        \<and> (\<exists>v. ps (drop 1 seg) = Some (Scalar v) \<and> word v)"
    "\<forall>seg\<in>set (split CHR ''/'' p). first_is CHR ''#'' seg \<longrightarrow>
        drop 1 seg \<noteq> [] \<and> drop 1 seg \<noteq> ''__proto__''
        \<and> (\<exists>vs. ps (drop 1 seg) = Some (Sequence vs) \<and> (\<forall>v\<in>set vs. word v))"
    "dom ps = set (map (drop 1) (filter (\<lambda>seg. first_is CHR ''+'' seg \<or> first_is CHR ''#'' seg)
                                  (split CHR ''/'' p)))"
  shows "getParameters P (match P (buildParameterizedTopic P ps)) = Inr (plain ps)"
proof -
  define segs where "segs = split CHR ''/'' p"
  note f = compiled_facts[OF assms(1), folded segs_def]
  have ty: "\<forall>seg\<in>set segs. typed ps seg"
    using assms(2,3) by (simp add: typed_def segs_def isSingle_def isMulti_def)
  have nm: "dom ps = names segs"
    using assms(4) by (simp add: names_def segs_def isRaw_def isSingle_def isMulti_def)
  have np: "''__proto__'' \<notin> names segs"
    using assms(2,3) by (auto simp: names_def segs_def isRaw_def isSingle_def isMulti_def)
  define topic where "topic = buildParameterizedTopic P ps"
  have t: "topic = join CHR ''/'' (map (subst ps) segs)"
    by (simp add: topic_def f(2) buildParameterizedTopic_subst segs_def)
  have "list_all2 inst segs (map (subst ps) segs)"
    using ty typed_inst by (simp add: list_all2_conv_all_nth)
  from dm_complete[OF this f(1)] have d: "dm segs topic = Some (ecaps segs (map (subst ps) segs))"
    by (simp add: t segs_def)
  have "getParameters P (match P topic)
        = Inr (writes (map token_of (filter (\<lambda>s. \<not> isRaw s) segs)) (ecaps segs (map (subst ps) segs))
                 (plain Map.empty))"
    using getParameters_writes[OF assms(1) d[unfolded segs_def]] by (simp add: segs_def)
  also have "\<dots> = Inr ((plain Map.empty)\<lparr> own := (\<lambda>n. if n \<in> names segs then ps n else own (plain Map.empty) n) \<rparr>)"
    by (simp add: writes_ecaps[OF ty f(1) np])
  also have "(\<lambda>n. if n \<in> names segs then ps n else own (plain Map.empty) n) = ps"
  proof -
    have "ps n = None" if "n \<notin> names segs" for n using that nm by (metis domIff)
    then show ?thesis by (auto simp: fun_eq_iff plain_def)
  qed
  finally show ?thesis by (simp add: topic_def plain_def)
qed

theorem C1_witness:
  "(\<exists>P. Pattern_from ''devices/+deviceId/config/#keys'' = Inr P
        \<and> buildParameterizedTopic P [''deviceId'' \<mapsto> Scalar ''42'', ''keys'' \<mapsto> Sequence [''a'', ''b'']]
            = ''devices/42/config/a/b''
        \<and> getParameters P (match P ''devices/42/config/a/b'')
            = Inr (plain [''deviceId'' \<mapsto> Scalar ''42'', ''keys'' \<mapsto> Sequence [''a'', ''b'']]))
   \<and> (\<exists>P. Pattern_from ''devices/my-device/config/#keys'' = Inr P
        \<and> buildParameterizedTopic P [''keys'' \<mapsto> Sequence []] = ''devices/my-device/config/''
        \<and> getParameters P (match P ''devices/my-device/config/'') = Inr (plain [''keys'' \<mapsto> Sequence []]))"
proof -
  define ps1 :: "string \<rightharpoonup> pvalue" where "ps1 = [''deviceId'' \<mapsto> Scalar ''42'', ''keys'' \<mapsto> Sequence [''a'', ''b'']]"
  define ps2 :: "string \<rightharpoonup> pvalue" where "ps2 = [''keys'' \<mapsto> Sequence []]"
  have c1: "Pattern_from ''devices/+deviceId/config/#keys'' = Inr (compiled ''devices/+deviceId/config/#keys'')"
    by (rule compiles) (simp add: isMulti_def first_is_def)
  have c2: "Pattern_from ''devices/my-device/config/#keys'' = Inr (compiled ''devices/my-device/config/#keys'')"
    by (rule compiles) (simp add: isMulti_def first_is_def)
  have b1: "buildParameterizedTopic (compiled ''devices/+deviceId/config/#keys'') ps1 = ''devices/42/config/a/b''"
    by (simp add: buildParameterizedTopic_def first_is_def ps1_def getProperty_def toString_def)
  have b2: "buildParameterizedTopic (compiled ''devices/my-device/config/#keys'') ps2 = ''devices/my-device/config/''"
    by (simp add: buildParameterizedTopic_def first_is_def ps2_def getProperty_def toString_def)
  have r1: "getParameters (compiled ''devices/+deviceId/config/#keys'')
              (match (compiled ''devices/+deviceId/config/#keys'')
                 (buildParameterizedTopic (compiled ''devices/+deviceId/config/#keys'') ps1)) = Inr (plain ps1)"
  proof (rule C1_round_trip[OF c1])
    show "\<forall>seg\<in>set (split CHR ''/'' ''devices/+deviceId/config/#keys''). first_is CHR ''+'' seg \<longrightarrow>
        drop 1 seg \<noteq> [] \<and> drop 1 seg \<noteq> ''__proto__''
        \<and> (\<exists>v. ps1 (drop 1 seg) = Some (Scalar v) \<and> word v)"
      by (simp add: first_is_def ps1_def word_def)
    show "\<forall>seg\<in>set (split CHR ''/'' ''devices/+deviceId/config/#keys''). first_is CHR ''#'' seg \<longrightarrow>
        drop 1 seg \<noteq> [] \<and> drop 1 seg \<noteq> ''__proto__''
        \<and> (\<exists>vs. ps1 (drop 1 seg) = Some (Sequence vs) \<and> (\<forall>v\<in>set vs. word v))"
      by (simp add: first_is_def ps1_def word_def)
    show "dom ps1 = set (map (drop 1) (filter (\<lambda>seg. first_is CHR ''+'' seg \<or> first_is CHR ''#'' seg)
                                  (split CHR ''/'' ''devices/+deviceId/config/#keys'')))"
      by (auto simp: first_is_def ps1_def)
  qed
  have r2: "getParameters (compiled ''devices/my-device/config/#keys'')
              (match (compiled ''devices/my-device/config/#keys'')
                 (buildParameterizedTopic (compiled ''devices/my-device/config/#keys'') ps2)) = Inr (plain ps2)"
  proof (rule C1_round_trip[OF c2])
    show "\<forall>seg\<in>set (split CHR ''/'' ''devices/my-device/config/#keys''). first_is CHR ''+'' seg \<longrightarrow>
        drop 1 seg \<noteq> [] \<and> drop 1 seg \<noteq> ''__proto__''
        \<and> (\<exists>v. ps2 (drop 1 seg) = Some (Scalar v) \<and> word v)"
      by (simp add: first_is_def ps2_def word_def)
    show "\<forall>seg\<in>set (split CHR ''/'' ''devices/my-device/config/#keys''). first_is CHR ''#'' seg \<longrightarrow>
        drop 1 seg \<noteq> [] \<and> drop 1 seg \<noteq> ''__proto__''
        \<and> (\<exists>vs. ps2 (drop 1 seg) = Some (Sequence vs) \<and> (\<forall>v\<in>set vs. word v))"
      by (simp add: first_is_def ps2_def word_def)
    show "dom ps2 = set (map (drop 1) (filter (\<lambda>seg. first_is CHR ''+'' seg \<or> first_is CHR ''#'' seg)
                                  (split CHR ''/'' ''devices/my-device/config/#keys'')))"
      by (auto simp: first_is_def ps2_def)
  qed
  show ?thesis using c1 c2 b1 b2 r1 r2 unfolding ps1_def ps2_def by (metis (no_types))
qed

theorem C1_counterexample:
  "(\<exists>P. Pattern_from ''+a'' = Inr P \<and> getParameterCount P = 1
        \<and> getParameters P (match P (buildParameterizedTopic P [''a'' \<mapsto> Scalar ''x/y''])) = Inr (plain Map.empty)
        \<and> plain [''a'' \<mapsto> Scalar ''x/y''] \<noteq> plain Map.empty)
   \<and> (\<exists>P. Pattern_from ''+a/+'' = Inr P \<and> getParameterCount P = 1
        \<and> getParameters P (match P (buildParameterizedTopic P [''a'' \<mapsto> Scalar ''x''])) = Inr (plain Map.empty)
        \<and> plain [''a'' \<mapsto> Scalar ''x''] \<noteq> plain Map.empty)
   \<and> (\<exists>P. Pattern_from ''+__proto__'' = Inr P \<and> getParameterCount P = 1
        \<and> buildParameterizedTopic P [''__proto__'' \<mapsto> Scalar ''x''] = ''x''
        \<and> match P ''x'' = Some [Some ''x'', Some ''x'']
        \<and> getParameters P (match P (buildParameterizedTopic P [''__proto__'' \<mapsto> Scalar ''x'']))
            = Inr (plain Map.empty)
        \<and> plain [''__proto__'' \<mapsto> Scalar ''x''] \<noteq> plain Map.empty)"
proof -
  have c1: "Pattern_from ''+a'' = Inr (compiled ''+a'')"
    by (rule compiles) (simp add: isMulti_def first_is_def)
  have c2: "Pattern_from ''+a/+'' = Inr (compiled ''+a/+'')"
    by (rule compiles) (simp add: isMulti_def first_is_def)
  have c3: "Pattern_from ''+__proto__'' = Inr (compiled ''+__proto__'')"
    by (rule compiles) (simp add: isMulti_def first_is_def)
  have n1: "getParameterCount (compiled ''+a'') = 1"
    by (simp add: getParameterCount_def buildParameterCount_def token_of_def isSingle_def first_is_def
        processSingle_def)
  have n2: "getParameterCount (compiled ''+a/+'') = 1"
    by (simp add: getParameterCount_def buildParameterCount_def token_of_def isSingle_def first_is_def
        processSingle_def)
  have n3: "getParameterCount (compiled ''+__proto__'') = 1"
    by (simp add: getParameterCount_def buildParameterCount_def token_of_def isSingle_def first_is_def
        processSingle_def)
  have b1: "buildParameterizedTopic (compiled ''+a'') [''a'' \<mapsto> Scalar ''x/y''] = ''x/y''"
    by (simp add: buildParameterizedTopic_def first_is_def getProperty_def toString_def)
  have b2: "buildParameterizedTopic (compiled ''+a/+'') [''a'' \<mapsto> Scalar ''x''] = ''x/+''"
    by (simp add: buildParameterizedTopic_def first_is_def getProperty_def toString_def objectPrototype_def)
  have b3: "buildParameterizedTopic (compiled ''+__proto__'') [''__proto__'' \<mapsto> Scalar ''x''] = ''x''"
    by (simp add: buildParameterizedTopic_def first_is_def getProperty_def toString_def)
  have m1: "match (compiled ''+a'') ''x/y'' = None"
    using match_dm[OF c1, of "''x/y''"] by (simp add: dm_eval)
  have m2: "match (compiled ''+a/+'') ''x/+'' = None"
    using match_dm[OF c2, of "''x/+''"] by (simp add: dm_eval)
  have d3: "dm (split CHR ''/'' ''+__proto__'') ''x'' = Some [''x'']"
    by (simp add: dm_eval)
  have m3: "match (compiled ''+__proto__'') ''x'' = Some [Some ''x'', Some ''x'']"
    using match_dm[OF c3, of "''x''"] d3 by simp
  have g3: "getParameters (compiled ''+__proto__'') (match (compiled ''+__proto__'') ''x'') = Inr (plain Map.empty)"
    unfolding getParameters_writes[OF c3 d3]
    by (simp add: isRaw_def isSingle_def isMulti_def first_is_def name_token_of capture_value_def
        token_of_def processSingle_def getLastItem_def removeLastItem_def assign_def plain_def)
  have g: "getParameters Q None = Inr (plain Map.empty)" for Q
    by (simp add: getParameters_def buildParameterFunction_def)
  have e: "plain f = plain g \<longleftrightarrow> f = g" for f g by (simp add: plain_def)
  have d1: "plain [''a'' \<mapsto> Scalar ''x/y''] \<noteq> plain Map.empty"
    "plain [''a'' \<mapsto> Scalar ''x''] \<noteq> plain Map.empty"
    "plain [''__proto__'' \<mapsto> Scalar ''x''] \<noteq> plain Map.empty" by (simp_all add: e)
  have 1: "\<exists>P. Pattern_from ''+a'' = Inr P \<and> getParameterCount P = 1
        \<and> getParameters P (match P (buildParameterizedTopic P [''a'' \<mapsto> Scalar ''x/y''])) = Inr (plain Map.empty)
        \<and> plain [''a'' \<mapsto> Scalar ''x/y''] \<noteq> plain Map.empty"
    using c1 n1 b1 m1 g d1(1) by (metis (no_types))
  have 2: "\<exists>P. Pattern_from ''+a/+'' = Inr P \<and> getParameterCount P = 1
        \<and> getParameters P (match P (buildParameterizedTopic P [''a'' \<mapsto> Scalar ''x''])) = Inr (plain Map.empty)
        \<and> plain [''a'' \<mapsto> Scalar ''x''] \<noteq> plain Map.empty"
    using c2 n2 b2 m2 g d1(2) by (metis (no_types))
  have 3: "\<exists>P. Pattern_from ''+__proto__'' = Inr P \<and> getParameterCount P = 1
        \<and> buildParameterizedTopic P [''__proto__'' \<mapsto> Scalar ''x''] = ''x''
        \<and> match P ''x'' = Some [Some ''x'', Some ''x'']
        \<and> getParameters P (match P (buildParameterizedTopic P [''__proto__'' \<mapsto> Scalar ''x'']))
            = Inr (plain Map.empty)
        \<and> plain [''__proto__'' \<mapsto> Scalar ''x''] \<noteq> plain Map.empty"
    using c3 n3 b3 m3 g3 d1(3) by (metis (no_types))
  from 1 2 3 show ?thesis by blast
qed

end
